theory Spec2Isabelle
  imports Complex_Main "HOL-Library.Word" "HOL-Library.Char_ord" "HOL-Library.List_Lexorder"
    "HOL-Library.Multiset"
begin

unbundle bit_operations_syntax

section \<open>Keccak-256\<close>

text \<open>
  The hash primitive behind \<^verbatim>\<open>ethers.solidityPackedKeccak256\<close> and Solidity's
  \<^verbatim>\<open>keccak256\<close>: Keccak-f[1600] with rate 136 bytes and the original Keccak padding
  (\<^verbatim>\<open>0x01 .. 0x80\<close>). Bytes and 64-bit lanes are integers; the state is the list of
  25 lanes, lane \<open>(x, y)\<close> at position \<open>x + 5 * y\<close>.
\<close>

definition rotl64 :: "nat \<Rightarrow> int \<Rightarrow> int" where
  "rotl64 n w = (w * 2 ^ n) mod 18446744073709551616 + w div 2 ^ (64 - n)"

definition not64 :: "int \<Rightarrow> int" where
  "not64 w = 18446744073709551615 - w"

definition xor64 :: "int \<Rightarrow> int \<Rightarrow> int" where
  "xor64 a b = a XOR b"

definition andn64 :: "int \<Rightarrow> int \<Rightarrow> int" where
  "andn64 a b = not64 a AND b"

fun zipw :: "('a \<Rightarrow> 'b \<Rightarrow> 'c) \<Rightarrow> 'a list \<Rightarrow> 'b list \<Rightarrow> 'c list" where
  "zipw f (x # xs) (y # ys) = f x y # zipw f xs ys"
| "zipw f _ _ = []"

fun rows5 :: "'a list \<Rightarrow> 'a list list" where
  "rows5 (a # b # c # d # e # rest) = [a, b, c, d, e] # rows5 rest"
| "rows5 _ = []"

fun rotl1 :: "'a list \<Rightarrow> 'a list" where
  "rotl1 [] = []"
| "rotl1 (x # xs) = xs @ [x]"

fun rotr1 :: "'a list \<Rightarrow> 'a list" where
  "rotr1 [] = []"
| "rotr1 xs = last xs # butlast xs"

fun parity :: "int list list \<Rightarrow> int list" where
  "parity [] = [0, 0, 0, 0, 0]"
| "parity (r # rs) = zipw xor64 r (parity rs)"

definition theta_d :: "int list \<Rightarrow> int list" where
  "theta_d c = zipw xor64 (rotr1 c) (map (rotl64 1) (rotl1 c))"

fun theta_apply :: "int list \<Rightarrow> int list list \<Rightarrow> int list" where
  "theta_apply d [] = []"
| "theta_apply d (r # rs) = zipw xor64 r d @ theta_apply d rs"

definition theta :: "int list \<Rightarrow> int list" where
  "theta s = theta_apply (theta_d (parity (rows5 s))) (rows5 s)"

text \<open>Rho and pi in one table: the new lane at each position is the old lane at the
  given source position, rotated left by the given offset.\<close>

definition rhopi_table :: "(nat \<times> nat) list" where
  "rhopi_table =
    [(0, 0), (6, 44), (12, 43), (18, 21), (24, 14),
     (3, 28), (9, 20), (10, 3), (16, 45), (22, 61),
     (1, 1), (7, 6), (13, 25), (19, 8), (20, 18),
     (4, 27), (5, 36), (11, 10), (17, 15), (23, 56),
     (2, 62), (8, 55), (14, 39), (15, 41), (21, 2)]"

fun rhopi_apply :: "int list \<Rightarrow> (nat \<times> nat) list \<Rightarrow> int list" where
  "rhopi_apply s [] = []"
| "rhopi_apply s ((i, r) # t) = rotl64 r (s ! i) # rhopi_apply s t"

definition chi_row :: "int list \<Rightarrow> int list" where
  "chi_row r = zipw xor64 r (zipw andn64 (rotl1 r) (rotl1 (rotl1 r)))"

fun chi_rows :: "int list list \<Rightarrow> int list" where
  "chi_rows [] = []"
| "chi_rows (r # rs) = chi_row r @ chi_rows rs"

fun iota :: "int \<Rightarrow> int list \<Rightarrow> int list" where
  "iota rc [] = []"
| "iota rc (a # as) = xor64 a rc # as"

definition round1 :: "int \<Rightarrow> int list \<Rightarrow> int list" where
  "round1 rc s = iota rc (chi_rows (rows5 (rhopi_apply (theta s) rhopi_table)))"

fun rounds :: "int list \<Rightarrow> int list \<Rightarrow> int list" where
  "rounds [] s = s"
| "rounds (rc # rcs) s = rounds rcs (round1 rc s)"

definition round_constants :: "int list" where
  "round_constants =
    [0x0000000000000001, 0x0000000000008082, 0x800000000000808A, 0x8000000080008000,
     0x000000000000808B, 0x0000000080000001, 0x8000000080008081, 0x8000000000008009,
     0x000000000000008A, 0x0000000000000088, 0x0000000080008009, 0x000000008000000A,
     0x000000008000808B, 0x800000000000008B, 0x8000000000008089, 0x8000000000008003,
     0x8000000000008002, 0x8000000000000080, 0x000000000000800A, 0x800000008000000A,
     0x8000000080008081, 0x8000000000008080, 0x0000000080000001, 0x8000000080008008]"

definition keccak_f :: "int list \<Rightarrow> int list" where
  "keccak_f s = rounds round_constants s"

fun le_lane :: "int list \<Rightarrow> int" where
  "le_lane [] = 0"
| "le_lane (b # bs) = b + 256 * le_lane bs"

fun lanes8 :: "int list \<Rightarrow> int list" where
  "lanes8 (a # b # c # d # e # f # g # h # rest) =
     le_lane [a, b, c, d, e, f, g, h] # lanes8 rest"
| "lanes8 _ = []"

fun xor_into :: "int list \<Rightarrow> int list \<Rightarrow> int list" where
  "xor_into (a # as) (b # bs) = xor64 a b # xor_into as bs"
| "xor_into as [] = as"
| "xor_into [] bs = []"

definition absorb_block :: "int list \<Rightarrow> int list \<Rightarrow> int list" where
  "absorb_block s blk = keccak_f (xor_into s (lanes8 blk))"

text \<open>The final block: the message tail, then \<^verbatim>\<open>0x01\<close>, zeros up to 136 bytes, and
  \<^verbatim>\<open>0x80\<close> added into the last byte.\<close>

fun seal :: "int list \<Rightarrow> int list" where
  "seal [] = []"
| "seal [b] = [b + 128]"
| "seal (b # bs) = b # seal bs"

definition last_block :: "int list \<Rightarrow> int list" where
  "last_block p = seal (take 136 (p @ 1 # replicate 135 0))"

function absorb :: "int list \<Rightarrow> int list \<Rightarrow> int list" where
  "absorb s m =
     (case drop 135 m of
        [] \<Rightarrow> absorb_block s (last_block m)
      | _ # _ \<Rightarrow> absorb (absorb_block s (take 136 m)) (drop 136 m))"
  by pat_completeness auto
termination
proof (relation "measure (\<lambda>(s, m). length m)")
  fix s m :: "int list" and x xs
  assume "drop 135 m = x # xs"
  then have "m \<noteq> []" by auto
  then show "((absorb_block s (take 136 m), drop 136 m), (s, m)) \<in> measure (\<lambda>(s, m). length m)"
    by (cases m) auto
qed simp

declare absorb.simps [simp del]

definition lane_bytes :: "int \<Rightarrow> int list" where
  "lane_bytes w =
     [w mod 256, w div 256 mod 256, w div 65536 mod 256, w div 16777216 mod 256,
      w div 4294967296 mod 256, w div 1099511627776 mod 256,
      w div 281474976710656 mod 256, w div 72057594037927936 mod 256]"

definition squeeze32 :: "int list \<Rightarrow> int list" where
  "squeeze32 s =
     (case s of
        a # b # c # d # _ \<Rightarrow> lane_bytes a @ lane_bytes b @ lane_bytes c @ lane_bytes d
      | _ \<Rightarrow> replicate 32 0)"

definition keccak256 :: "int list \<Rightarrow> int list" where
  "keccak256 m = squeeze32 (absorb (replicate 25 0) m)"

section \<open>The ethers helpers the code calls\<close>

text \<open>
  ethers is a library outside the repository. \<^verbatim>\<open>solidityPackedKeccak256\<close> packs its
  values as Solidity's \<^verbatim>\<open>abi.encodePacked\<close> does (a string as its UTF-8 bytes, a
  \<^verbatim>\<open>uint256\<close> as 32 big-endian bytes, a \<^verbatim>\<open>bytes32\<close> as its 32 bytes), hashes the bytes
  and returns the digest as a lower-case hex string; it throws on a value that does not
  fit its type.

  A JavaScript string is modelled as an Isabelle \<^typ>\<open>string\<close>, one \<^typ>\<open>char\<close> per
  UTF-16 code unit below 256; \<open><\<close> on strings is the code-unit lexicographic order of
  JavaScript's \<^verbatim>\<open><\<close> and of the default \<^verbatim>\<open>Array.prototype.sort\<close>.
\<close>

datatype error =
    NoRecordsForMerkleTree  \<comment> \<open>\<^verbatim>\<open>Error('No records for Merkle tree')\<close>\<close>
  | NoLeavesProvided        \<comment> \<open>\<^verbatim>\<open>Error('No leaves provided')\<close>\<close>
  | InvalidArgument         \<comment> \<open>thrown by ethers on a value that does not fit its type\<close>
  | TypeError               \<comment> \<open>a property read on \<^verbatim>\<open>undefined\<close>\<close>

datatype soltype = TString | TUint256 | TBytes32

datatype jsarg = VStr string | VNum int

definition utf8char :: "char \<Rightarrow> int list" where
  "utf8char c = (let n = (of_char c :: int) in
     if n < 128 then [n] else [192 + n div 64, 128 + n mod 64])"

definition toUtf8Bytes :: "string \<Rightarrow> int list" where
  "toUtf8Bytes s = concat (map utf8char s)"

definition hexVal :: "char \<Rightarrow> int option" where
  "hexVal c = (let n = (of_char c :: int) in
     if 48 \<le> n \<and> n \<le> 57 then Some (n - 48)
     else if 97 \<le> n \<and> n \<le> 102 then Some (n - 87)
     else if 65 \<le> n \<and> n \<le> 70 then Some (n - 55)
     else None)"

fun hexPairs :: "string \<Rightarrow> int list option" where
  "hexPairs [] = Some []"
| "hexPairs [c] = None"
| "hexPairs (a # b # rest) =
     (case hexVal a of None \<Rightarrow> None | Some h \<Rightarrow>
      (case hexVal b of None \<Rightarrow> None | Some l \<Rightarrow>
       (case hexPairs rest of None \<Rightarrow> None | Some bs \<Rightarrow> Some ((16 * h + l) # bs))))"

text \<open>\<^verbatim>\<open>getBytes\<close>: a hex string, \<^verbatim>\<open>0x\<close> followed by an even number of hex digits, all
  matched without regard to case; anything else is rejected.\<close>

definition getBytes :: "string \<Rightarrow> int list option" where
  "getBytes s =
     (case s of
        c0 # c1 # rest \<Rightarrow>
          if c0 = CHR ''0'' \<and> (c1 = CHR ''x'' \<or> c1 = CHR ''X'') then hexPairs rest else None
      | _ \<Rightarrow> None)"

definition hexDigit :: "int \<Rightarrow> char" where
  "hexDigit n = ''0123456789abcdef'' ! nat n"

definition hexByte :: "int \<Rightarrow> string" where
  "hexByte b = [hexDigit (b div 16), hexDigit (b mod 16)]"

definition hexlify :: "int list \<Rightarrow> string" where
  "hexlify bs = CHR ''0'' # CHR ''x'' # concat (map hexByte bs)"

fun be_bytes :: "nat \<Rightarrow> int \<Rightarrow> int list" where
  "be_bytes 0 n = []"
| "be_bytes (Suc k) n = be_bytes k (n div 256) @ [n mod 256]"

text \<open>ethers accepts a JavaScript number only inside the safe-integer range, and an
  unsigned type only for a value that is not negative.\<close>

definition MAX_SAFE_INTEGER :: int where
  "MAX_SAFE_INTEGER = 9007199254740991"

fun pack :: "soltype \<Rightarrow> jsarg \<Rightarrow> error + int list" where
  "pack TString (VStr s) = Inr (toUtf8Bytes s)"
| "pack TUint256 (VNum n) =
     (if 0 \<le> n \<and> n \<le> MAX_SAFE_INTEGER then Inr (be_bytes 32 n) else Inl InvalidArgument)"
| "pack TBytes32 (VStr s) =
     (case getBytes s of
        None \<Rightarrow> Inl InvalidArgument
      | Some bs \<Rightarrow> if length bs = 32 then Inr bs else Inl InvalidArgument)"
| "pack _ _ = Inl InvalidArgument"

fun solidityPacked :: "soltype list \<Rightarrow> jsarg list \<Rightarrow> error + int list" where
  "solidityPacked [] [] = Inr []"
| "solidityPacked (t # ts) (v # vs) =
     (case pack t v of
        Inl e \<Rightarrow> Inl e
      | Inr b \<Rightarrow> (case solidityPacked ts vs of Inl e \<Rightarrow> Inl e | Inr bs \<Rightarrow> Inr (b @ bs)))"
| "solidityPacked _ _ = Inl InvalidArgument"

definition solidityPackedKeccak256 :: "soltype list \<Rightarrow> jsarg list \<Rightarrow> error + string" where
  "solidityPackedKeccak256 ts vs =
     (case solidityPacked ts vs of Inl e \<Rightarrow> Inl e | Inr bs \<Rightarrow> Inr (hexlify (keccak256 bs)))"

text \<open>The strings that ethers accepts for a \<^verbatim>\<open>bytes32\<close>.\<close>

definition validBytes32 :: "string \<Rightarrow> bool" where
  "validBytes32 s = (case getBytes s of None \<Rightarrow> False | Some bs \<Rightarrow> length bs = 32)"

section \<open>Sensor records\<close>

text \<open>
  \<^verbatim>\<open>SensorData\<close> and \<^verbatim>\<open>SensorReading\<close> have the same five fields and differ in the type
  of \<^verbatim>\<open>data\<close> only. The optional \<^verbatim>\<open>dataHash\<close> of \<^verbatim>\<open>SensorData\<close> is read by none of the
  functions below. A timestamp is an integer-valued JavaScript number.
\<close>

record 'd Sensor =
  deviceId :: string
  timestamp :: int
  data :: 'd
  dataType :: string
  location :: string

type_synonym SensorData = "string Sensor"

section \<open>merkleTreeUtils.ts: class MerkleTreeUtils\<close>

definition sortPairs :: "string \<Rightarrow> string \<Rightarrow> string \<times> string" where
  "sortPairs left right = (if left < right then (left, right) else (right, left))"

definition hashNode :: "string \<Rightarrow> string \<Rightarrow> error + string" where
  "hashNode left right =
     (case sortPairs left right of
        (sortedLeft, sortedRight) \<Rightarrow>
          solidityPackedKeccak256 [TBytes32, TBytes32] [VStr sortedLeft, VStr sortedRight])"

text \<open>The leaf of one record: the body of the arrow function that \<^verbatim>\<open>generateLeaves\<close>
  maps over the records (\<^verbatim>\<open>IntegrityChecker.calculateDataHash\<close> is the same expression).
  The first exception ends the map.\<close>

definition leafHash :: "SensorData \<Rightarrow> error + string" where
  "leafHash record =
     solidityPackedKeccak256 [TString, TUint256, TString, TString, TString]
       [VStr (deviceId record), VNum (timestamp record), VStr (data record),
        VStr (dataType record), VStr (location record)]"

fun generateLeaves :: "SensorData list \<Rightarrow> error + string list" where
  "generateLeaves [] = Inr []"
| "generateLeaves (record # records) =
     (case leafHash record of
        Inl e \<Rightarrow> Inl e
      | Inr leaf \<Rightarrow>
          (case generateLeaves records of Inl e \<Rightarrow> Inl e | Inr leaves \<Rightarrow> Inr (leaf # leaves)))"

text \<open>The inner \<^verbatim>\<open>for\<close> loop of \<^verbatim>\<open>MerkleTreeUtils.buildLayers\<close>, two elements a step;
  \<^verbatim>\<open>currentLayer[i + 1] || left\<close> takes \<^verbatim>\<open>left\<close> when there is no right element and
  also when the right element is the empty string.\<close>

fun nextLayer :: "string list \<Rightarrow> error + string list" where
  "nextLayer [] = Inr []"
| "nextLayer [left] =
     (case hashNode left left of Inl e \<Rightarrow> Inl e | Inr h \<Rightarrow> Inr [h])"
| "nextLayer (left # r # rest) =
     (case hashNode left (if r = [] then left else r) of
        Inl e \<Rightarrow> Inl e
      | Inr h \<Rightarrow> (case nextLayer rest of Inl e \<Rightarrow> Inl e | Inr hs \<Rightarrow> Inr (h # hs)))"

text \<open>The \<^verbatim>\<open>while\<close> loop: \<open>lower\<close> holds the layers below the current one, so that the
  array \<^verbatim>\<open>layers\<close> of the source is \<open>lower @ [currentLayer]\<close>.\<close>

function buildLayersLoop :: "string list list \<Rightarrow> string list \<Rightarrow> error + string list list" where
  "buildLayersLoop lower currentLayer =
     (if length currentLayer > 1 then
        (case nextLayer currentLayer of
           Inl e \<Rightarrow> Inl e
         | Inr nxt \<Rightarrow> buildLayersLoop (lower @ [currentLayer]) nxt)
      else Inr (lower @ [currentLayer]))"
  by pat_completeness auto
termination
proof (relation "measure (\<lambda>(lower, currentLayer). length currentLayer)")
  fix lower :: "string list list" and currentLayer nxt :: "string list"
  assume big: "1 < length currentLayer" and nl: "nextLayer currentLayer = Inr nxt"
  have len: "nextLayer xs = Inr ys \<Longrightarrow> length ys = (length xs + 1) div 2" for xs ys
    by (induction xs arbitrary: ys rule: nextLayer.induct) (auto split: sum.splits)
  from len [OF nl] big
  show "((lower @ [currentLayer], nxt), (lower, currentLayer))
          \<in> measure (\<lambda>(lower, currentLayer). length currentLayer)"
    by simp
qed simp

declare buildLayersLoop.simps [simp del]

definition buildLayers :: "string list \<Rightarrow> error + string list list" where
  "buildLayers leaves =
     (if length leaves = 0 then Inl NoLeavesProvided else buildLayersLoop [] leaves)"

text \<open>\<^verbatim>\<open>layers[layers.length - 1][0]\<close>: reading the last layer of an empty array of
  layers is a TypeError; element 0 of an empty layer is \<^verbatim>\<open>undefined\<close>, here \<open>None\<close>.\<close>

definition rootOf :: "string list list \<Rightarrow> error + string option" where
  "rootOf layers =
     (if layers = [] then Inl TypeError
      else Inr (case last layers of [] \<Rightarrow> None | r # _ \<Rightarrow> Some r))"

text \<open>The proof of one leaf: the loop over \<^verbatim>\<open>layers[0 .. layers.length - 2]\<close>, called on
  all layers but the last.\<close>

fun proofPath :: "string list list \<Rightarrow> nat \<Rightarrow> string list" where
  "proofPath [] currentIndex = []"
| "proofPath (layer # rest) currentIndex =
     (let siblingIndex = (if currentIndex mod 2 = 0 then currentIndex + 1 else currentIndex - 1)
      in (if siblingIndex < length layer then [layer ! siblingIndex] else [])
         @ proofPath rest (currentIndex div 2))"

text \<open>The result \<^verbatim>\<open>{ merkleRoot, proofs }\<close> is a pair; \<^verbatim>\<open>proofs\<close>, keyed by the leaf
  indices \<open>0 .. n - 1\<close>, is the list of the proofs in that order.\<close>

definition MerkleTreeUtils_generateMerkleTree ::
    "SensorData list \<Rightarrow> error + (string option \<times> string list list)" where
  "MerkleTreeUtils_generateMerkleTree records =
     (case generateLeaves records of
        Inl e \<Rightarrow> Inl e
      | Inr leaves \<Rightarrow>
          (case buildLayers leaves of
             Inl e \<Rightarrow> Inl e
           | Inr layers \<Rightarrow>
               (case rootOf layers of
                  Inl e \<Rightarrow> Inl e
                | Inr merkleRoot \<Rightarrow>
                    Inr (merkleRoot,
                         map (proofPath (butlast layers)) [0 ..< length leaves]))))"

fun verifyLoop :: "string \<Rightarrow> string list \<Rightarrow> error + string" where
  "verifyLoop computedHash [] = Inr computedHash"
| "verifyLoop computedHash (proofElement # proof) =
     (case hashNode computedHash proofElement of
        Inl e \<Rightarrow> Inl e
      | Inr h \<Rightarrow> verifyLoop h proof)"

definition verifyProof :: "string \<Rightarrow> string list \<Rightarrow> string \<Rightarrow> error + bool" where
  "verifyProof leaf proof rootHash =
     (case verifyLoop leaf proof of Inl e \<Rightarrow> Inl e | Inr computedHash \<Rightarrow> Inr (computedHash = rootHash))"

section \<open>merkleTree.ts: the standalone functions\<close>

text \<open>The sibling pair goes through the default \<^verbatim>\<open>sort()\<close> of a two-element array.\<close>

definition pairHash :: "string \<Rightarrow> string \<Rightarrow> error + string" where
  "pairHash left right =
     solidityPackedKeccak256 [TBytes32, TBytes32] (map VStr (sort [left, right]))"

text \<open>\<^verbatim>\<open>prev[i + 1] ?? left\<close> takes \<^verbatim>\<open>left\<close> only when there is no right element.\<close>

fun nextLayer_s :: "string list \<Rightarrow> error + string list" where
  "nextLayer_s [] = Inr []"
| "nextLayer_s [left] =
     (case pairHash left left of Inl e \<Rightarrow> Inl e | Inr h \<Rightarrow> Inr [h])"
| "nextLayer_s (left # right # rest) =
     (case pairHash left right of
        Inl e \<Rightarrow> Inl e
      | Inr h \<Rightarrow> (case nextLayer_s rest of Inl e \<Rightarrow> Inl e | Inr hs \<Rightarrow> Inr (h # hs)))"

function buildLayersLoop_s :: "string list list \<Rightarrow> string list \<Rightarrow> error + string list list" where
  "buildLayersLoop_s lower prev =
     (if length prev > 1 then
        (case nextLayer_s prev of
           Inl e \<Rightarrow> Inl e
         | Inr nxt \<Rightarrow> buildLayersLoop_s (lower @ [prev]) nxt)
      else Inr (lower @ [prev]))"
  by pat_completeness auto
termination
proof (relation "measure (\<lambda>(lower, prev). length prev)")
  fix lower :: "string list list" and prev nxt :: "string list"
  assume big: "1 < length prev" and nl: "nextLayer_s prev = Inr nxt"
  have len: "nextLayer_s xs = Inr ys \<Longrightarrow> length ys = (length xs + 1) div 2" for xs ys
    by (induction xs arbitrary: ys rule: nextLayer_s.induct) (auto split: sum.splits)
  from len [OF nl] big
  show "((lower @ [prev], nxt), (lower, prev)) \<in> measure (\<lambda>(lower, prev). length prev)"
    by simp
qed simp

declare buildLayersLoop_s.simps [simp del]

definition buildLayers_s :: "string list \<Rightarrow> error + string list list" where
  "buildLayers_s leaves = buildLayersLoop_s [] leaves"

text \<open>
  \<^verbatim>\<open>index ^ 1\<close> is a 32-bit operation: JavaScript takes the operands through ToInt32
  first. \<^verbatim>\<open>layer[pairIndex]\<close> at a negative index is \<^verbatim>\<open>undefined\<close>, so an entry of a
  proof is a \<^typ>\<open>string option\<close>.
\<close>

definition toInt32 :: "int \<Rightarrow> int" where
  "toInt32 n = (let m = n mod 4294967296 in if m < 2147483648 then m else m - 4294967296)"

definition xor32 :: "int \<Rightarrow> int \<Rightarrow> int" where
  "xor32 a b = toInt32 a XOR toInt32 b"

definition arrayAt :: "'a list \<Rightarrow> int \<Rightarrow> 'a option" where
  "arrayAt xs i = (if 0 \<le> i \<and> i < int (length xs) then Some (xs ! nat i) else None)"

fun proofPath_s :: "string list list \<Rightarrow> nat \<Rightarrow> string option list" where
  "proofPath_s [] index = []"
| "proofPath_s (layer # rest) index =
     (let pairIndex = xor32 (int index) 1
      in (if pairIndex < int (length layer) then [arrayAt layer pairIndex] else [])
         @ proofPath_s rest (index div 2))"

text \<open>The standalone function maps the same leaf expression over the records.\<close>

definition generateMerkleTree ::
    "SensorData list \<Rightarrow> error + (string option \<times> string option list list)" where
  "generateMerkleTree records =
     (if length records = 0 then Inl NoRecordsForMerkleTree
      else
        (case generateLeaves records of
           Inl e \<Rightarrow> Inl e
         | Inr leaves \<Rightarrow>
             (case buildLayers_s leaves of
                Inl e \<Rightarrow> Inl e
              | Inr layers \<Rightarrow>
                  (case rootOf layers of
                     Inl e \<Rightarrow> Inl e
                   | Inr merkleRoot \<Rightarrow>
                       Inr (merkleRoot, map (proofPath_s (butlast layers)) [0 ..< length leaves])))))"

section \<open>The shape of a list of layers\<close>

text \<open>Each layer has half the length of the layer below it, rounded up.\<close>

fun halving :: "'a list list \<Rightarrow> bool" where
  "halving [] = True"
| "halving [l] = True"
| "halving (a # b # ls) = (length b = (length a + 1) div 2 \<and> halving (b # ls))"

section \<open>IoTData.sol: storing a record on chain\<close>

text \<open>
  A Solidity \<^verbatim>\<open>string\<close> is its sequence of bytes and a \<^verbatim>\<open>uint256\<close> a natural number
  below \<open>2 ^ 256\<close>. \<^verbatim>\<open>abi.encodePacked\<close> writes a string as its bytes and a
  \<^verbatim>\<open>uint256\<close> as 32 big-endian bytes.
\<close>

datatype abival = AString "int list" | AUint256 nat

fun abi_encodePacked :: "abival list \<Rightarrow> int list" where
  "abi_encodePacked [] = []"
| "abi_encodePacked (AString bs # vs) = bs @ abi_encodePacked vs"
| "abi_encodePacked (AUint256 n # vs) = be_bytes 32 (int n mod 2 ^ 256) @ abi_encodePacked vs"

datatype StoredSensorData = StoredSensorData
  (stored_deviceId: "int list") (stored_timestamp: nat) (stored_data: "int list")
  (stored_dataType: "int list") (stored_location: "int list") (stored_dataHash: "int list")

record IoTData =
  sensorRecords :: "nat \<Rightarrow> StoredSensorData option"
  recordCounter :: nat

datatype revert = MissingRole | Overflow

text \<open>\<^verbatim>\<open>storeData\<close>: \<open>authorized\<close> is the outcome of the role check on the sender and
  \<open>block_timestamp\<close> the timestamp of the block. The device index and the event are
  left out; no function here reads them.\<close>

definition storeData ::
    "bool \<Rightarrow> nat \<Rightarrow> IoTData \<Rightarrow> int list \<Rightarrow> int list \<Rightarrow> int list \<Rightarrow> int list
       \<Rightarrow> revert + (IoTData \<times> nat)" where
  "storeData authorized block_timestamp st deviceId' data' dataType' location' =
     (if \<not> authorized then Inl MissingRole
      else
        (let dataHash = keccak256 (abi_encodePacked
               [AString deviceId', AUint256 block_timestamp, AString data',
                AString dataType', AString location']);
             currentRecordId = recordCounter st
         in if currentRecordId + 1 \<ge> 2 ^ 256 then Inl Overflow
            else Inr (st\<lparr>recordCounter := currentRecordId + 1,
                          sensorRecords := (sensorRecords st)(currentRecordId \<mapsto>
                            StoredSensorData deviceId' block_timestamp data' dataType'
                              location' dataHash)\<rparr>,
                      currentRecordId)))"

section \<open>JavaScript numbers\<close>

text \<open>
  A JavaScript number is an IEEE 754 double. Every finite double is an integer
  multiple of \<open>2 ^ -1074\<close>, so \<open>Fin k\<close> stands for the double \<open>k * 2 ^ -1074\<close>, with
  \<open>Fin 0\<close> for \<^verbatim>\<open>+0\<close>; \<open>NZero\<close> is \<^verbatim>\<open>-0\<close>. The operators \<^verbatim>\<open>+\<close>, \<^verbatim>\<open>-\<close> and \<^verbatim>\<open>/\<close> give the
  exact result rounded to the nearest double, a tie to the one with an even
  significand, and infinity past the largest double.
\<close>

datatype number = NaN | PInf | NInf | NZero | Fin int

text \<open>The number of binary digits of a positive integer.\<close>

function bits :: "int \<Rightarrow> nat" where
  "bits n = (if n \<le> 0 then 0 else Suc (bits (n div 2)))"
  by pat_completeness auto
termination
  by (relation "measure nat") auto

declare bits.simps [simp del]

text \<open>The quotient \<open>num / den\<close> of a natural number by a positive one, in units of
  \<open>2 ^ -1074\<close>, rounded to 53 significant binary digits.\<close>

definition roundRatio :: "int \<Rightarrow> int \<Rightarrow> number" where
  "roundRatio num den =
     (let shift = bits (num div den) - 53;
          d = den * 2 ^ shift;
          q = num div d;
          r = num mod d;
          n = (if 2 * r > d \<or> (2 * r = d \<and> odd q) then q + 1 else q);
          result = n * 2 ^ shift
      in if result \<ge> 2 ^ 2098 then PInf else Fin result)"

fun neg :: "number \<Rightarrow> number" where
  "neg NaN = NaN"
| "neg PInf = NInf"
| "neg NInf = PInf"
| "neg NZero = Fin 0"
| "neg (Fin k) = (if k = 0 then NZero else Fin (- k))"

definition roundSigned :: "int \<Rightarrow> int \<Rightarrow> number" where
  "roundSigned num den = (if num < 0 then neg (roundRatio (- num) den) else roundRatio num den)"

text \<open>\<^verbatim>\<open>a + b\<close>. An exact sum of zero is \<^verbatim>\<open>+0\<close>, except that \<^verbatim>\<open>-0 + -0\<close> is \<^verbatim>\<open>-0\<close>.\<close>

fun num_add :: "number \<Rightarrow> number \<Rightarrow> number" where
  "num_add NaN b = NaN"
| "num_add a NaN = NaN"
| "num_add PInf NInf = NaN"
| "num_add NInf PInf = NaN"
| "num_add PInf b = PInf"
| "num_add a PInf = PInf"
| "num_add NInf b = NInf"
| "num_add a NInf = NInf"
| "num_add NZero NZero = NZero"
| "num_add NZero (Fin b) = Fin b"
| "num_add (Fin a) NZero = Fin a"
| "num_add (Fin a) (Fin b) = roundSigned (a + b) 1"

text \<open>\<^verbatim>\<open>a - b\<close>.\<close>

definition num_sub :: "number \<Rightarrow> number \<Rightarrow> number" where
  "num_sub a b = num_add a (neg b)"

fun isNaN :: "number \<Rightarrow> bool" where
  "isNaN NaN = True"
| "isNaN _ = False"

fun isInf :: "number \<Rightarrow> bool" where
  "isInf PInf = True"
| "isInf NInf = True"
| "isInf _ = False"

text \<open>\<^verbatim>\<open>isFinite\<close>.\<close>

fun isFinite :: "number \<Rightarrow> bool" where
  "isFinite (Fin k) = True"
| "isFinite NZero = True"
| "isFinite _ = False"

fun isZero :: "number \<Rightarrow> bool" where
  "isZero NZero = True"
| "isZero (Fin k) = (k = 0)"
| "isZero _ = False"

text \<open>The sign bit.\<close>

fun isNeg :: "number \<Rightarrow> bool" where
  "isNeg NZero = True"
| "isNeg NInf = True"
| "isNeg (Fin k) = (k < 0)"
| "isNeg _ = False"

fun magnitude :: "number \<Rightarrow> int" where
  "magnitude (Fin k) = \<bar>k\<bar>"
| "magnitude _ = 0"

definition signed :: "bool \<Rightarrow> number \<Rightarrow> number" where
  "signed s x = (if s then neg x else x)"

text \<open>\<^verbatim>\<open>a / b\<close>.\<close>

definition num_div :: "number \<Rightarrow> number \<Rightarrow> number" where
  "num_div a b =
     (if isNaN a \<or> isNaN b then NaN
      else
        (let s = (isNeg a \<noteq> isNeg b) in
         if isInf a then (if isInf b then NaN else signed s PInf)
         else if isInf b then signed s (Fin 0)
         else if isZero b then (if isZero a then NaN else signed s PInf)
         else signed s (roundRatio (magnitude a * 2 ^ 1074) (magnitude b))))"

text \<open>The number of a natural number, as for an array length or an integer literal.\<close>

definition numberOfNat :: "nat \<Rightarrow> number" where
  "numberOfNat n = roundRatio (int n * 2 ^ 1074) 1"

text \<open>\<^verbatim>\<open>v > 0\<close>.\<close>

fun positive :: "number \<Rightarrow> bool" where
  "positive PInf = True"
| "positive (Fin k) = (k > 0)"
| "positive _ = False"

text \<open>
  \<^verbatim>\<open>sort((a, b) => a - b)\<close>. The language fixes the result where the comparator is
  consistent, as it is on finite numbers: ascending, elements that compare equal in
  their original order. The comparator returns NaN on a NaN and on an infinity compared
  with itself; with one of these among the numbers the engine returns them in an order
  of its own.

  \<^verbatim>\<open>Math.pow\<close> and \<^verbatim>\<open>Math.sqrt\<close> are the engine's as well.
\<close>

record Engine =
  Math_pow :: "number \<Rightarrow> number \<Rightarrow> number"
  Math_sqrt :: "number \<Rightarrow> number"
  sortUnspecified :: "number list \<Rightarrow> number list"

fun insertNumber :: "number \<Rightarrow> number list \<Rightarrow> number list" where
  "insertNumber x [] = [x]"
| "insertNumber x (y # ys) =
     (if positive (num_sub x y) then y # insertNumber x ys else x # y # ys)"

definition sortNumbers :: "Engine \<Rightarrow> number list \<Rightarrow> number list" where
  "sortNumbers engine xs =
     (if list_all isFinite xs then foldr insertNumber xs []
      else
        (let sorted = sortUnspecified engine xs in if mset sorted = mset xs then sorted else xs))"

text \<open>The numeric order of two numbers, neither of them a NaN; \<^verbatim>\<open>-0\<close> and \<^verbatim>\<open>+0\<close> are
  equal in it.\<close>

fun intOf :: "number \<Rightarrow> int" where
  "intOf (Fin k) = k"
| "intOf _ = 0"

fun below :: "number \<Rightarrow> number \<Rightarrow> bool" where
  "below NaN b = False"
| "below a NaN = False"
| "below NInf b = True"
| "below a PInf = True"
| "below PInf b = False"
| "below a NInf = False"
| "below a b = (intOf a \<le> intOf b)"

text \<open>The real number that a finite number stands for.\<close>

fun valueOf :: "number \<Rightarrow> real option" where
  "valueOf (Fin k) = Some (real_of_int k / 2 ^ 1074)"
| "valueOf NZero = Some 0"
| "valueOf _ = None"

fun valuesOf :: "number list \<Rightarrow> real list option" where
  "valuesOf [] = Some []"
| "valuesOf (x # xs) =
     (case valueOf x of
        None \<Rightarrow> None
      | Some v \<Rightarrow> (case valuesOf xs of None \<Rightarrow> None | Some vs \<Rightarrow> Some (v # vs)))"

section \<open>dataAggregation.ts\<close>

text \<open>
  JavaScript values as far as \<^verbatim>\<open>extractNumericValue\<close> looks at them. The pairs of an
  object are listed in the order in which \<^verbatim>\<open>for ... in\<close> visits its keys, each key once.
\<close>

datatype jsval =
    JNull | JBool bool | JNum number | JStr string | JArr "jsval list"
  | JObj "(string \<times> jsval) list"

text \<open>The field \<^verbatim>\<open>data\<close> of a \<^verbatim>\<open>SensorReading\<close>: \<^verbatim>\<open>string | Record<string, any>\<close>.\<close>

datatype rdata = DString string | DRecord jsval

type_synonym SensorReading = "rdata Sensor"

record Statistics =
  min_s :: number
  max_s :: number
  average_s :: number
  median_s :: number
  standardDeviation_s :: number

definition calculateStatistics :: "Engine \<Rightarrow> number list \<Rightarrow> Statistics" where
  "calculateStatistics engine values =
     (if length values = 0 then
        \<lparr>min_s = Fin 0, max_s = Fin 0, average_s = Fin 0, median_s = Fin 0,
         standardDeviation_s = Fin 0\<rparr>
      else
        (let sortedValues = sortNumbers engine values;
             sum = foldl (\<lambda>acc val. num_add acc val) (Fin 0) sortedValues;
             average = num_div sum (numberOfNat (length sortedValues));
             middle = length sortedValues div 2;
             median =
               (if length sortedValues mod 2 = 0
                then num_div (num_add (sortedValues ! (middle - 1)) (sortedValues ! middle))
                       (numberOfNat 2)
                else sortedValues ! middle);
             squaredDiffs =
               map (\<lambda>value. Math_pow engine (num_sub value average) (numberOfNat 2)) sortedValues;
             variance =
               num_div (foldl (\<lambda>acc val. num_add acc val) (Fin 0) squaredDiffs)
                 (numberOfNat (length sortedValues))
         in \<lparr>min_s = sortedValues ! 0,
             max_s = sortedValues ! (length sortedValues - 1),
             average_s = average,
             median_s = median,
             standardDeviation_s = Math_sqrt engine variance\<rparr>))"

text \<open>A canonical array index: \<^verbatim>\<open>0\<close>, or decimal digits without a leading zero.\<close>

definition digitVal :: "char \<Rightarrow> nat option" where
  "digitVal c = (let n = (of_char c :: nat) in if 48 \<le> n \<and> n \<le> 57 then Some (n - 48) else None)"

fun digitsVal :: "nat \<Rightarrow> string \<Rightarrow> nat option" where
  "digitsVal acc [] = Some acc"
| "digitsVal acc (c # cs) =
     (case digitVal c of None \<Rightarrow> None | Some d \<Rightarrow> digitsVal (10 * acc + d) cs)"

definition arrayIndex :: "string \<Rightarrow> nat option" where
  "arrayIndex key =
     (if key = [] then None
      else if hd key = CHR ''0'' \<and> length key > 1 then None
      else digitsVal 0 key)"

text \<open>\<^verbatim>\<open>typeof d[key] === 'number'\<close>, with the number: an object answers with its own
  property, an array with its length or an element, a string with its length; the
  properties that a value inherits from its prototype are functions and objects.\<close>

fun numberProp :: "jsval \<Rightarrow> string \<Rightarrow> number option" where
  "numberProp (JObj kvs) key = (case map_of kvs key of Some (JNum v) \<Rightarrow> Some v | _ \<Rightarrow> None)"
| "numberProp (JArr xs) key =
     (if key = ''length'' then Some (numberOfNat (length xs))
      else (case arrayIndex key of
              None \<Rightarrow> None
            | Some i \<Rightarrow> if i < length xs
                then (case xs ! i of JNum v \<Rightarrow> Some v | _ \<Rightarrow> None) else None))"
| "numberProp (JStr s) key = (if key = ''length'' then Some (numberOfNat (length s)) else None)"
| "numberProp _ key = None"

fun forInValues :: "jsval \<Rightarrow> jsval list" where
  "forInValues (JObj kvs) = map snd kvs"
| "forInValues (JArr xs) = xs"
| "forInValues (JStr s) = map (\<lambda>c. JStr [c]) s"
| "forInValues _ = []"

fun firstNumber :: "jsval list \<Rightarrow> number option" where
  "firstNumber [] = None"
| "firstNumber (JNum v # vs) = Some v"
| "firstNumber (_ # vs) = firstNumber vs"

text \<open>\<open>JSON_parse\<close> stands for \<^verbatim>\<open>JSON.parse\<close>, \<open>None\<close> where it throws. Every exception in
  the body, also the TypeError of a property read on \<^verbatim>\<open>null\<close>, is caught and gives
  \<^verbatim>\<open>null\<close>, here \<open>None\<close>.\<close>

definition extractNumericValue :: "(string \<Rightarrow> jsval option) \<Rightarrow> SensorReading \<Rightarrow> number option" where
  "extractNumericValue JSON_parse reading =
     (case (case data reading of DString s \<Rightarrow> JSON_parse s | DRecord v \<Rightarrow> Some v) of
        None \<Rightarrow> None
      | Some JNull \<Rightarrow> None
      | Some d \<Rightarrow>
          (case numberProp d ''value'' of
             Some v \<Rightarrow> Some v
           | None \<Rightarrow>
               (case (if dataType reading \<noteq> [] then numberProp d (dataType reading) else None) of
                  Some v \<Rightarrow> Some v
                | None \<Rightarrow> firstNumber (forInValues d))))"

definition formatSensorData :: "(jsval \<Rightarrow> string) \<Rightarrow> SensorReading \<Rightarrow> SensorData" where
  "formatSensorData JSON_stringify reading =
     \<lparr>deviceId = deviceId reading,
      timestamp = timestamp reading,
      data = (case data reading of DString s \<Rightarrow> s | DRecord v \<Rightarrow> JSON_stringify v),
      dataType = dataType reading,
      location = location reading\<rparr>"

text \<open>The fields of \<^verbatim>\<open>LocalDataAggregate\<close>. \<^verbatim>\<open>deviceId\<close> and \<^verbatim>\<open>dataType\<close> come out of
  an array destructuring and \<^verbatim>\<open>merkleRoot\<close> out of an array read, so each may be
  \<^verbatim>\<open>undefined\<close>, here \<open>None\<close>.\<close>

record LocalDataAggregate =
  deviceId_a :: "string option"
  dataType_a :: "string option"
  startTimestamp :: int
  endTimestamp :: int
  recordCount :: nat
  min_a :: number
  max_a :: number
  average_a :: number
  medianValue :: number
  standardDeviation_a :: number
  anomalyCount :: nat
  merkleRoot :: "string option"

definition groupKey :: "SensorReading \<Rightarrow> string" where
  "groupKey reading = deviceId reading @ ''-'' @ dataType reading"

text \<open>A \<^verbatim>\<open>Map\<close> from keys to arrays, in insertion order: push onto the array of the
  key, after creating it at the end when the key is new.\<close>

fun mapPush :: "string \<Rightarrow> 'a \<Rightarrow> (string \<times> 'a list) list \<Rightarrow> (string \<times> 'a list) list" where
  "mapPush k v [] = [(k, [v])]"
| "mapPush k v ((k', vs) # m) =
     (if k' = k then (k', vs @ [v]) # m else (k', vs) # mapPush k v m)"

fun groupReadingsLoop ::
    "(string \<times> SensorReading list) list \<Rightarrow> SensorReading list \<Rightarrow> (string \<times> SensorReading list) list" where
  "groupReadingsLoop groupedReadings [] = groupedReadings"
| "groupReadingsLoop groupedReadings (reading # readings) =
     groupReadingsLoop (mapPush (groupKey reading) reading groupedReadings) readings"

text \<open>\<^verbatim>\<open>String.prototype.split\<close> with a one-character separator.\<close>

fun split :: "char \<Rightarrow> string \<Rightarrow> string list" where
  "split sep [] = [[]]"
| "split sep (c # cs) =
     (if c = sep then [] # split sep cs
      else (case split sep cs of [] \<Rightarrow> [[c]] | part # parts \<Rightarrow> (c # part) # parts))"

text \<open>
  The body of the loop over the groups. \<open>detectBatchAnomalies\<close> gives the number of
  reports that the anomaly detection returns for the group; its exceptions are all
  caught inside it. The comparator \<^verbatim>\<open>a.timestamp - b.timestamp\<close> sorts by timestamp,
  and the sort is stable.
\<close>

definition aggregateGroup ::
    "(string \<Rightarrow> jsval option) \<Rightarrow> (jsval \<Rightarrow> string) \<Rightarrow> (SensorReading list \<Rightarrow> nat)
       \<Rightarrow> Engine \<Rightarrow> string \<Rightarrow> SensorReading list \<Rightarrow> error + LocalDataAggregate" where
  "aggregateGroup JSON_parse JSON_stringify detectBatchAnomalies engine key group0 =
     (let group = sort_key timestamp group0 in
      case group of
        [] \<Rightarrow> Inl TypeError
      | first # _ \<Rightarrow>
          (let startTimestamp' = timestamp first;
               endTimestamp' = timestamp (last group);
               numericValues = List.map_filter (extractNumericValue JSON_parse) group;
               stats = calculateStatistics engine numericValues;
               anomalies = detectBatchAnomalies group;
               formattedData = map (formatSensorData JSON_stringify) group
           in case generateMerkleTree formattedData of
                Inl e \<Rightarrow> Inl e
              | Inr (merkleRoot', proofs) \<Rightarrow>
                  (let parts = split CHR ''-'' key
                   in Inr \<lparr>deviceId_a = arrayAt parts 0,
                           dataType_a = arrayAt parts 1,
                           startTimestamp = startTimestamp',
                           endTimestamp = endTimestamp',
                           recordCount = length group,
                           min_a = min_s stats,
                           max_a = max_s stats,
                           average_a = average_s stats,
                           medianValue = median_s stats,
                           standardDeviation_a = standardDeviation_s stats,
                           anomalyCount = anomalies,
                           merkleRoot = merkleRoot'\<rparr>)))"

fun aggregateGroups ::
    "(string \<Rightarrow> jsval option) \<Rightarrow> (jsval \<Rightarrow> string) \<Rightarrow> (SensorReading list \<Rightarrow> nat)
       \<Rightarrow> Engine \<Rightarrow> (string \<times> SensorReading list) list \<Rightarrow> error + (string \<times> LocalDataAggregate) list" where
  "aggregateGroups JSON_parse JSON_stringify detectBatchAnomalies engine [] = Inr []"
| "aggregateGroups JSON_parse JSON_stringify detectBatchAnomalies engine ((key, members) # groups) =
     (case aggregateGroup JSON_parse JSON_stringify detectBatchAnomalies engine key members of
        Inl e \<Rightarrow> Inl e
      | Inr aggregate \<Rightarrow>
          (case aggregateGroups JSON_parse JSON_stringify detectBatchAnomalies engine groups of
             Inl e \<Rightarrow> Inl e
           | Inr aggregates \<Rightarrow> Inr ((key, aggregate) # aggregates)))"

definition aggregateSensorData ::
    "(string \<Rightarrow> jsval option) \<Rightarrow> (jsval \<Rightarrow> string) \<Rightarrow> (SensorReading list \<Rightarrow> nat)
       \<Rightarrow> Engine \<Rightarrow> SensorReading list \<Rightarrow> error + (string \<times> LocalDataAggregate) list" where
  "aggregateSensorData JSON_parse JSON_stringify detectBatchAnomalies engine readings =
     aggregateGroups JSON_parse JSON_stringify detectBatchAnomalies engine (groupReadingsLoop [] readings)"

subsection \<open>The arithmetic mean\<close>

text \<open>As the specification words it, over the real numbers.\<close>

definition spec_mean :: "real list \<Rightarrow> real" where
  "spec_mean xs = sum_list xs / real (length xs)"

text \<open>In the arithmetic of numbers: the elements are added from the left, starting at
  \<^verbatim>\<open>0\<close>, and the sum is divided by their count, each operation rounded.\<close>

definition rounded_mean :: "number list \<Rightarrow> number" where
  "rounded_mean xs = num_div (foldl num_add (Fin 0) xs) (numberOfNat (length xs))"

text \<open>The records of the group of a key, and its samples in the order in which
  \<^verbatim>\<open>aggregateSensorData\<close> extracts them: by timestamp.\<close>

definition groupOf :: "string \<Rightarrow> SensorReading list \<Rightarrow> SensorReading list" where
  "groupOf key readings = filter (\<lambda>reading. groupKey reading = key) readings"

definition samplesOf ::
    "(string \<Rightarrow> jsval option) \<Rightarrow> string \<Rightarrow> SensorReading list \<Rightarrow> number list" where
  "samplesOf JSON_parse key readings =
     List.map_filter (extractNumericValue JSON_parse) (sort_key timestamp (groupOf key readings))"

section \<open>Example records\<close>

definition record0 :: SensorData where
  "record0 = \<lparr>deviceId = ''device-001'', timestamp = 1700000000, data = ''20'',
     dataType = ''temperature'', location = ''field-north''\<rparr>"

definition record1 :: SensorData where
  "record1 = \<lparr>deviceId = ''device-001'', timestamp = 1700000060, data = ''22'',
     dataType = ''temperature'', location = ''field-north''\<rparr>"

definition record2 :: SensorData where
  "record2 = \<lparr>deviceId = ''device-001'', timestamp = 1700000120, data = ''19'',
     dataType = ''temperature'', location = ''field-north''\<rparr>"

text \<open>Their leaves, and the nodes above them.\<close>

definition leaf0 :: string where
  "leaf0 = ''0x37e1d99b35c9ebe40c54dd232ba262934bbce0d955c7774461c2917e9955332b''"

definition leaf1 :: string where
  "leaf1 = ''0x5308425619014dd4ee44923879a459dc198697cc2777dbd109d63967bc45ec92''"

definition leaf2 :: string where
  "leaf2 = ''0x1658192d68a6ad91513a639896e35af8c316d71ab5792c32bf3b16be19960c36''"

definition node01 :: string where
  "node01 = ''0xe9e9a0c7227497ca7a1983e96063a26df0f58d3519a30b0ae0504a83870f8607''"

definition node22 :: string where
  "node22 = ''0x2ade5c012ff4a057e8fc8866ebfc8d560519f24026ea98d7b99ce1de8cc1c264''"

definition root012 :: string where
  "root012 = ''0x4c2d2ae1f8c24c0ffa8b9a423cde1a3649caa92e28f492ac66f165e9641d29ea''"

text \<open>Readings of one device with the values 20, 22 and 19, and a reading without a
  number in its data.\<close>

definition reading0 :: SensorReading where
  "reading0 = \<lparr>deviceId = ''device-001'', timestamp = 1700000000,
     data = DRecord (JObj [(''value'', JNum (numberOfNat 20))]),
     dataType = ''temperature'', location = ''field-north''\<rparr>"

definition reading1 :: SensorReading where
  "reading1 = \<lparr>deviceId = ''device-001'', timestamp = 1700000060,
     data = DRecord (JObj [(''value'', JNum (numberOfNat 22))]),
     dataType = ''temperature'', location = ''field-north''\<rparr>"

definition reading2 :: SensorReading where
  "reading2 = \<lparr>deviceId = ''device-001'', timestamp = 1700000120,
     data = DRecord (JObj [(''value'', JNum (numberOfNat 19))]),
     dataType = ''temperature'', location = ''field-north''\<rparr>"

definition reading_offline :: SensorReading where
  "reading_offline = \<lparr>deviceId = ''pump7'', timestamp = 1700000000,
     data = DRecord (JObj [(''status'', JStr ''offline'')]),
     dataType = ''state'', location = ''field-north''\<rparr>"

text \<open>Two readings whose device and data type differ and whose keys are equal.\<close>

definition reading_ab_c :: SensorReading where
  "reading_ab_c = \<lparr>deviceId = ''a-b'', timestamp = 1, data = DString ''x'',
     dataType = ''c'', location = ''north''\<rparr>"

definition reading_a_bc :: SensorReading where
  "reading_a_bc = \<lparr>deviceId = ''a'', timestamp = 2, data = DString ''y'',
     dataType = ''b-c'', location = ''north''\<rparr>"

text \<open>Stand-ins for \<^verbatim>\<open>JSON.parse\<close>, \<^verbatim>\<open>JSON.stringify\<close>, the anomaly detection and the
  engine where a closed example needs them.\<close>

definition parse_fails :: "string \<Rightarrow> jsval option" where
  "parse_fails s = None"

definition stringify_blank :: "jsval \<Rightarrow> string" where
  "stringify_blank v = ''{}''"

definition no_anomalies :: "SensorReading list \<Rightarrow> nat" where
  "no_anomalies readings = 0"

definition engine_blank :: Engine where
  "engine_blank =
     \<lparr>Math_pow = (\<lambda>x y. NaN), Math_sqrt = (\<lambda>x. NaN), sortUnspecified = (\<lambda>xs. xs)\<rparr>"

text \<open>The number \<^verbatim>\<open>0.1\<close>, which is the double nearest to one tenth, and the double after
  it, \<^verbatim>\<open>0.10000000000000002\<close>.\<close>

definition tenth :: number where
  "tenth = Fin (7205759403792794 * 2 ^ 1018)"

definition tenth_above :: number where
  "tenth_above = Fin (7205759403792795 * 2 ^ 1018)"

text \<open>A reading of one tenth at a given time.\<close>

definition reading_tenth :: "int \<Rightarrow> SensorReading" where
  "reading_tenth time = \<lparr>deviceId = ''device-001'', timestamp = time,
     data = DRecord (JObj [(''value'', JNum tenth)]),
     dataType = ''temperature'', location = ''field-north''\<rparr>"

section \<open>Digests are well-formed\<close>

lemma squeeze32_length: "length (squeeze32 s) = 32"
  by (simp add: squeeze32_def lane_bytes_def split: list.splits)

lemma lane_bytes_range: "b \<in> set (lane_bytes w) \<Longrightarrow> 0 \<le> b \<and> b < 256"
  unfolding lane_bytes_def by auto

lemma squeeze32_range: "b \<in> set (squeeze32 s) \<Longrightarrow> 0 \<le> b \<and> b < 256"
  unfolding squeeze32_def using lane_bytes_range by (fastforce split: list.splits)

lemma keccak256_length [simp]: "length (keccak256 m) = 32"
  by (simp add: keccak256_def squeeze32_length)

lemma keccak256_range: "b \<in> set (keccak256 m) \<Longrightarrow> 0 \<le> b \<and> b < 256"
  unfolding keccak256_def by (rule squeeze32_range)

text \<open>The digest of the empty message, as published for Keccak-256.\<close>

lemma keccak256_empty:
  "hexlify (keccak256 [])
     = ''0xc5d2460186f7233c927e7db2dcc703c0e500b653ca82273b7bfad8045d85a470''"
  by code_simp

lemma hexVal_hexDigit_all: "\<forall>k \<in> set [0 ..< 16]. hexVal (hexDigit (int k)) = Some (int k)"
  by code_simp

lemma hexVal_hexDigit: "0 \<le> n \<Longrightarrow> n < 16 \<Longrightarrow> hexVal (hexDigit n) = Some n"
  using hexVal_hexDigit_all [rule_format, of "nat n"] by simp

lemma hexPairs_hexByte:
  assumes "0 \<le> b" "b < 256"
  shows "hexPairs (hexByte b @ rest) = (case hexPairs rest of None \<Rightarrow> None | Some bs \<Rightarrow> Some (b # bs))"
proof -
  have "0 \<le> b div 16" "b div 16 < 16" "0 \<le> b mod 16" "b mod 16 < 16"
    using assms by auto
  moreover have "16 * (b div 16) + b mod 16 = b" by simp
  ultimately show ?thesis
    by (simp add: hexByte_def hexVal_hexDigit split: option.splits)
qed

lemma hexPairs_hex: "\<forall>b \<in> set bs. 0 \<le> b \<and> b < 256 \<Longrightarrow> hexPairs (concat (map hexByte bs)) = Some bs"
  by (induction bs) (simp_all add: hexPairs_hexByte)

lemma getBytes_hexlify: "\<forall>b \<in> set bs. 0 \<le> b \<and> b < 256 \<Longrightarrow> getBytes (hexlify bs) = Some bs"
  by (simp add: getBytes_def hexlify_def hexPairs_hex)

lemma getBytes_keccak [simp]: "getBytes (hexlify (keccak256 m)) = Some (keccak256 m)"
  by (rule getBytes_hexlify) (use keccak256_range in blast)

lemma validBytes32_digest [simp]: "validBytes32 (hexlify (keccak256 m))"
  by (simp add: validBytes32_def)

lemma validBytes32_nonempty: "validBytes32 s \<Longrightarrow> s \<noteq> []"
  by (auto simp add: validBytes32_def getBytes_def)

lemma solidityPackedKeccak256_valid:
  "solidityPackedKeccak256 ts vs = Inr h \<Longrightarrow> validBytes32 h"
  by (auto simp add: solidityPackedKeccak256_def split: sum.splits)

lemma packed_pair:
  "solidityPackedKeccak256 [TBytes32, TBytes32] [VStr a, VStr b] =
     (if validBytes32 a \<and> validBytes32 b
      then Inr (hexlify (keccak256 (the (getBytes a) @ the (getBytes b))))
      else Inl InvalidArgument)"
  by (auto simp add: solidityPackedKeccak256_def validBytes32_def split: option.splits)

lemma sort_pair: "sort [a, b] = (case sortPairs a b of (x, y) \<Rightarrow> [x, y])" for a b :: string
  by (auto simp add: sortPairs_def)

lemma hashNode_pairHash: "hashNode a b = pairHash a b"
  by (auto simp add: hashNode_def pairHash_def sortPairs_def)

lemma hashNode_commute: "hashNode a b = hashNode b a"
  by (cases "a < b"; cases "b < a") (auto simp add: hashNode_def sortPairs_def)

lemma hashNode_eq:
  "hashNode a b =
     (if validBytes32 a \<and> validBytes32 b
      then Inr (hexlify (keccak256 (the (getBytes (min a b)) @ the (getBytes (max a b)))))
      else Inl InvalidArgument)"
  by (auto simp add: hashNode_def sortPairs_def packed_pair min_def max_def)

lemma hashNode_valid: "hashNode a b = Inr h \<Longrightarrow> validBytes32 h"
  by (auto simp add: hashNode_eq split: if_splits)

lemma hashNode_ok: "validBytes32 a \<Longrightarrow> validBytes32 b \<Longrightarrow> \<exists>h. hashNode a b = Inr h"
  by (simp add: hashNode_eq)

section \<open>The layers\<close>

lemma nextLayer_length: "nextLayer xs = Inr ys \<Longrightarrow> length ys = (length xs + 1) div 2"
  by (induction xs arbitrary: ys rule: nextLayer.induct) (auto split: sum.splits)

lemma nextLayer_s_length: "nextLayer_s xs = Inr ys \<Longrightarrow> length ys = (length xs + 1) div 2"
  by (induction xs arbitrary: ys rule: nextLayer_s.induct) (auto split: sum.splits)

lemma nextLayer_valid: "nextLayer xs = Inr ys \<Longrightarrow> list_all validBytes32 ys"
  by (induction xs arbitrary: ys rule: nextLayer.induct)
     (auto split: sum.splits dest: hashNode_valid)

lemma nextLayer_ok: "list_all validBytes32 xs \<Longrightarrow> \<exists>ys. nextLayer xs = Inr ys"
  by (induction xs rule: nextLayer.induct) (auto simp add: hashNode_eq)

lemma nextLayer_s_eq: "[] \<notin> set xs \<Longrightarrow> nextLayer_s xs = nextLayer xs"
  by (induction xs rule: nextLayer.induct) (auto simp add: hashNode_pairHash split: sum.splits)

lemma valid_no_empty: "list_all validBytes32 xs \<Longrightarrow> [] \<notin> set xs"
  by (auto simp add: list_all_iff dest: validBytes32_nonempty)

lemma buildLayersLoop_ok:
  "list_all validBytes32 cur \<Longrightarrow> \<exists>layers. buildLayersLoop lower cur = Inr layers"
proof (induction lower cur rule: buildLayersLoop.induct)
  case (1 lower cur)
  show ?case
  proof (cases "1 < length cur")
    case True
    from nextLayer_ok [OF "1.prems"] obtain nxt where nxt: "nextLayer cur = Inr nxt" by blast
    from "1.IH" [OF True nxt nextLayer_valid [OF nxt]] nxt True
    show ?thesis by (subst buildLayersLoop.simps) simp
  next
    case False
    then show ?thesis by (subst buildLayersLoop.simps) simp
  qed
qed

lemma buildLayersLoop_s_eq:
  "list_all validBytes32 cur \<Longrightarrow> buildLayersLoop_s lower cur = buildLayersLoop lower cur"
proof (induction lower cur rule: buildLayersLoop.induct)
  case (1 lower cur)
  have same: "nextLayer_s cur = nextLayer cur"
    using "1.prems" by (simp add: nextLayer_s_eq valid_no_empty)
  show ?case
  proof (cases "1 < length cur")
    case True
    show ?thesis
    proof (cases "nextLayer cur")
      case (Inl e)
      with True same show ?thesis
        by (subst buildLayersLoop.simps, subst buildLayersLoop_s.simps) simp
    next
      case (Inr nxt)
      from "1.IH" [OF True Inr nextLayer_valid [OF Inr]] True same Inr
      show ?thesis
        by (subst buildLayersLoop.simps, subst buildLayersLoop_s.simps) simp
    qed
  next
    case False
    then show ?thesis
      by (subst buildLayersLoop.simps, subst buildLayersLoop_s.simps) simp
  qed
qed

lemma buildLayersLoop_shape:
  "buildLayersLoop lower cur = Inr layers \<Longrightarrow>
     \<exists>rest. layers = lower @ cur # rest \<and> halving (cur # rest)
       \<and> length (last (cur # rest)) \<le> 1 \<and> (cur \<noteq> [] \<longrightarrow> last (cur # rest) \<noteq> [])"
proof (induction lower cur arbitrary: layers rule: buildLayersLoop.induct)
  case (1 lower cur)
  show ?case
  proof (cases "1 < length cur")
    case True
    with "1.prems" obtain nxt where nxt: "nextLayer cur = Inr nxt"
      and rec: "buildLayersLoop (lower @ [cur]) nxt = Inr layers"
      by (subst (asm) buildLayersLoop.simps) (auto split: sum.splits)
    from "1.IH" [OF True nxt rec] obtain rest where
      r: "layers = (lower @ [cur]) @ nxt # rest" "halving (nxt # rest)"
         "length (last (nxt # rest)) \<le> 1" "nxt \<noteq> [] \<longrightarrow> last (nxt # rest) \<noteq> []"
      by blast
    from nextLayer_length [OF nxt] True have "length nxt = (length cur + 1) div 2" "nxt \<noteq> []"
      by auto
    with r show ?thesis by (intro exI [of _ "nxt # rest"]) simp
  next
    case False
    with "1.prems" have "layers = lower @ [cur]"
      by (subst (asm) buildLayersLoop.simps) simp
    with False show ?thesis by (intro exI [of _ "[]"]) auto
  qed
qed

lemma buildLayersLoop_s_shape:
  "buildLayersLoop_s lower cur = Inr layers \<Longrightarrow>
     \<exists>rest. layers = lower @ cur # rest \<and> halving (cur # rest)
       \<and> length (last (cur # rest)) \<le> 1 \<and> (cur \<noteq> [] \<longrightarrow> last (cur # rest) \<noteq> [])"
proof (induction lower cur arbitrary: layers rule: buildLayersLoop_s.induct)
  case (1 lower cur)
  show ?case
  proof (cases "1 < length cur")
    case True
    with "1.prems" obtain nxt where nxt: "nextLayer_s cur = Inr nxt"
      and rec: "buildLayersLoop_s (lower @ [cur]) nxt = Inr layers"
      by (subst (asm) buildLayersLoop_s.simps) (auto split: sum.splits)
    from "1.IH" [OF True nxt rec] obtain rest where
      r: "layers = (lower @ [cur]) @ nxt # rest" "halving (nxt # rest)"
         "length (last (nxt # rest)) \<le> 1" "nxt \<noteq> [] \<longrightarrow> last (nxt # rest) \<noteq> []"
      by blast
    from nextLayer_s_length [OF nxt] True have "length nxt = (length cur + 1) div 2" "nxt \<noteq> []"
      by auto
    with r show ?thesis by (intro exI [of _ "nxt # rest"]) simp
  next
    case False
    with "1.prems" have "layers = lower @ [cur]"
      by (subst (asm) buildLayersLoop_s.simps) simp
    with False show ?thesis by (intro exI [of _ "[]"]) auto
  qed
qed

lemma halving_nth:
  "halving ls \<Longrightarrow> Suc i < length ls \<Longrightarrow> length (ls ! Suc i) = (length (ls ! i) + 1) div 2"
proof (induction ls arbitrary: i rule: halving.induct)
  case (3 a b ls)
  then show ?case by (cases i) auto
qed auto

section \<open>Leaves, proofs and trees\<close>

lemma leafHash_eq:
  "leafHash r =
     (if 0 \<le> timestamp r \<and> timestamp r \<le> MAX_SAFE_INTEGER
      then Inr (hexlify (keccak256 (toUtf8Bytes (deviceId r) @ be_bytes 32 (timestamp r)
             @ toUtf8Bytes (data r) @ toUtf8Bytes (dataType r) @ toUtf8Bytes (location r))))
      else Inl InvalidArgument)"
  by (simp add: leafHash_def solidityPackedKeccak256_def)

lemma leafHash_valid: "leafHash r = Inr leaf \<Longrightarrow> validBytes32 leaf"
  unfolding leafHash_def by (rule solidityPackedKeccak256_valid)

lemma generateLeaves_valid:
  "generateLeaves rs = Inr leaves \<Longrightarrow> list_all validBytes32 leaves \<and> length leaves = length rs"
  by (induction rs arbitrary: leaves) (auto split: sum.splits dest: leafHash_valid)

lemma generateLeaves_ok:
  "\<forall>r \<in> set rs. 0 \<le> timestamp r \<and> timestamp r \<le> MAX_SAFE_INTEGER \<Longrightarrow>
     \<exists>leaves. generateLeaves rs = Inr leaves"
  by (induction rs) (auto simp add: leafHash_eq)

lemma toInt32_small: "0 \<le> n \<Longrightarrow> n < 2147483648 \<Longrightarrow> toInt32 n = n"
  by (simp add: toInt32_def)

lemma xor32_sibling:
  assumes "index < 2 ^ 31"
  shows "xor32 (int index) 1 = int (if index mod 2 = 0 then index + 1 else index - 1)"
proof -
  have "toInt32 (int index) = int index" "toInt32 1 = 1"
    using assms by (simp_all add: toInt32_small)
  moreover have "int index XOR 1 = int index + of_bool (even index) - of_bool (odd index)"
    by (simp add: xor_one_eq)
  ultimately show ?thesis
    by (cases "even index") (auto simp add: xor32_def elim: oddE)
qed

lemma proofPath_s_eq:
  "index < 2 ^ 31 \<Longrightarrow> proofPath_s layers index = map Some (proofPath layers index)"
proof (induction layers arbitrary: index)
  case Nil
  show ?case by simp
next
  case (Cons layer rest)
  have "index div 2 < 2 ^ 31" using Cons.prems by simp
  from Cons.IH [OF this] xor32_sibling [OF Cons.prems]
  show ?case by (auto simp add: arrayAt_def Let_def)
qed

lemma rootOf_single_top:
  "layers = lower @ cur # rest \<Longrightarrow> rootOf layers =
     Inr (case last (cur # rest) of [] \<Rightarrow> None | r # _ \<Rightarrow> Some r)"
  by (simp add: rootOf_def)

text \<open>
  Claim C5. Building a Merkle tree from an empty list fails with an error and produces
  no root: the standalone \<^verbatim>\<open>generateMerkleTree\<close> throws on zero records, and
  \<^verbatim>\<open>MerkleTreeUtils.buildLayers\<close>, hence \<^verbatim>\<open>MerkleTreeUtils.generateMerkleTree\<close>, throws
  on zero leaves.
\<close>
theorem empty_input_fails:
  "generateMerkleTree [] = Inl NoRecordsForMerkleTree
   \<and> MerkleTreeUtils_generateMerkleTree [] = Inl NoLeavesProvided
   \<and> buildLayers [] = Inl NoLeavesProvided"
  by (simp add: generateMerkleTree_def MerkleTreeUtils_generateMerkleTree_def buildLayers_def)

text \<open>
  Claim C2. The pairwise node hash is commutative, \<open>pairHash a b = pairHash b a\<close>, in
  both implementations, because each hashes the two hex strings in ascending order:
  \<^verbatim>\<open>sortPairs\<close> and the default \<^verbatim>\<open>sort()\<close> both give the smaller string first.
\<close>
theorem pair_hash_commutative:
  "hashNode a b = hashNode b a \<and> pairHash a b = pairHash b a
   \<and> sortPairs a b = (min a b, max a b) \<and> sort [a, b] = [min a b, max a b]"
proof -
  have "pairHash a b = pairHash b a"
    using hashNode_commute [of a b] by (simp add: hashNode_pairHash)
  moreover have "sortPairs a b = (min a b, max a b)"
    by (auto simp add: sortPairs_def min_def max_def)
  moreover have "sort [a, b] = [min a b, max a b]"
    by (auto simp add: min_def max_def)
  ultimately show ?thesis using hashNode_commute [of a b] by simp
qed

lemma single_leaf_layers: "buildLayersLoop [] [leaf] = Inr [[leaf]]"
  "buildLayersLoop_s [] [leaf] = Inr [[leaf]]"
  by (simp_all add: buildLayersLoop.simps buildLayersLoop_s.simps)

text \<open>
  Claim C6. For a single record the root of the tree is the leaf hash of the record and
  the proof generated for index 0 is the empty list, in both implementations; the tree
  fails only where the leaf hash itself fails, which it does not for a timestamp that
  ethers accepts.
\<close>
theorem single_record_tree:
  "generateMerkleTree [r] = map_sum id (\<lambda>leaf. (Some leaf, [[]])) (leafHash r)
   \<and> MerkleTreeUtils_generateMerkleTree [r] = map_sum id (\<lambda>leaf. (Some leaf, [[]])) (leafHash r)
   \<and> (0 \<le> timestamp r \<and> timestamp r \<le> MAX_SAFE_INTEGER \<longrightarrow> (\<exists>leaf. leafHash r = Inr leaf))"
proof -
  have "generateMerkleTree [r] = map_sum id (\<lambda>leaf. (Some leaf, [[]])) (leafHash r)"
    by (cases "leafHash r")
       (simp_all add: generateMerkleTree_def buildLayers_s_def single_leaf_layers rootOf_def)
  moreover
  have "MerkleTreeUtils_generateMerkleTree [r] = map_sum id (\<lambda>leaf. (Some leaf, [[]])) (leafHash r)"
    by (cases "leafHash r")
       (simp_all add: MerkleTreeUtils_generateMerkleTree_def buildLayers_def single_leaf_layers
          rootOf_def)
  ultimately show ?thesis by (simp add: leafHash_eq)
qed

text \<open>
  Claim C4. For every non-empty list of leaves (bytes32 hex strings) both builders
  return the same layers: layer 0 is the list of leaves, every layer \<open>i + 1\<close> has
  \<open>\<lceil>length (layer i) / 2\<rceil>\<close> elements, and the last layer has exactly one element.
\<close>
theorem layer_shape:
  assumes "leaves \<noteq> []" and "\<forall>leaf \<in> set leaves. validBytes32 leaf"
  shows "\<exists>layers. buildLayers leaves = Inr layers \<and> buildLayers_s leaves = Inr layers
           \<and> layers ! 0 = leaves
           \<and> (\<forall>i. Suc i < length layers \<longrightarrow>
                 length (layers ! Suc i) = (length (layers ! i) + 1) div 2)
           \<and> length (last layers) = 1"
proof -
  have valid: "list_all validBytes32 leaves"
    using assms(2) by (simp add: list_all_iff)
  from buildLayersLoop_ok [OF valid] obtain layers where
    layers: "buildLayersLoop [] leaves = Inr layers" by blast
  from buildLayersLoop_shape [OF layers] obtain rest where
    rest: "layers = leaves # rest" "halving (leaves # rest)"
      "length (last (leaves # rest)) \<le> 1" "last (leaves # rest) \<noteq> []"
    using assms(1) by auto
  have "buildLayers leaves = Inr layers"
    using assms(1) layers by (simp add: buildLayers_def)
  moreover have "buildLayers_s leaves = Inr layers"
    using layers by (simp add: buildLayers_s_def buildLayersLoop_s_eq [OF valid])
  moreover have "layers ! 0 = leaves" using rest(1) by simp
  moreover have "\<forall>i. Suc i < length layers \<longrightarrow>
      length (layers ! Suc i) = (length (layers ! i) + 1) div 2"
    using halving_nth rest(1,2) by blast
  moreover have "length (last layers) = 1"
  proof -
    have "length (last (leaves # rest)) \<noteq> 0" using rest(4) by simp
    with rest(3) have "length (last (leaves # rest)) = 1" by linarith
    then show ?thesis using rest(1) by simp
  qed
  ultimately show ?thesis by blast
qed

text \<open>
  Claim C10. For every non-empty list of records, of fewer than \<open>2 ^ 31\<close> entries,
  \<^verbatim>\<open>MerkleTreeUtils.generateMerkleTree\<close> and the standalone \<^verbatim>\<open>generateMerkleTree\<close> return
  the same root and, for every leaf index, the same proof; where one throws, the other
  throws the same error.
\<close>
theorem implementations_agree:
  assumes "records \<noteq> []" and "length records < 2 ^ 31"
  shows "generateMerkleTree records =
           map_sum id (\<lambda>(merkleRoot, proofs). (merkleRoot, map (map Some) proofs))
             (MerkleTreeUtils_generateMerkleTree records)"
proof (cases "generateLeaves records")
  case (Inl e)
  with assms(1) show ?thesis
    by (simp add: generateMerkleTree_def MerkleTreeUtils_generateMerkleTree_def)
next
  case (Inr leaves)
  from generateLeaves_valid [OF Inr] have valid: "list_all validBytes32 leaves"
    and len: "length leaves = length records" by simp_all
  from len assms(1) have ne: "leaves \<noteq> []" by auto
  have layers_eq: "buildLayers_s leaves = buildLayers leaves"
    using ne by (simp add: buildLayers_s_def buildLayers_def buildLayersLoop_s_eq [OF valid])
  have paths: "map (proofPath_s ls) [0 ..< length leaves]
      = map (map Some) (map (proofPath ls) [0 ..< length leaves])" for ls
    using len assms(2) by (simp add: proofPath_s_eq)
  show ?thesis
    using assms(1) Inr layers_eq paths
    by (simp add: generateMerkleTree_def MerkleTreeUtils_generateMerkleTree_def
        split: sum.splits)
qed

section \<open>The tree of the three example records\<close>

lemma leafHash_record0: "leafHash record0 = Inr leaf0"
  by code_simp

lemma leafHash_record1: "leafHash record1 = Inr leaf1"
  by code_simp

lemma leafHash_record2: "leafHash record2 = Inr leaf2"
  by code_simp

lemma hashNode_leaf0_leaf1: "hashNode leaf0 leaf1 = Inr node01"
  by code_simp

lemma hashNode_leaf2_leaf2: "hashNode leaf2 leaf2 = Inr node22"
  by code_simp

lemma hashNode_node01_node22: "hashNode node01 node22 = Inr root012"
  by code_simp

lemma hashNode_leaf2_node01:
  "hashNode leaf2 node01 =
     Inr ''0x5c77893156b52470bd620d49e112a96aa9d5ae64f06a4539e8b6600cd9097327''"
  by code_simp

lemma example_nonempty: "leaf0 \<noteq> []" "leaf1 \<noteq> []" "leaf2 \<noteq> []" "node01 \<noteq> []" "node22 \<noteq> []"
  by (simp_all add: leaf0_def leaf1_def leaf2_def node01_def node22_def)

lemma example_leaves: "generateLeaves [record0, record1, record2] = Inr [leaf0, leaf1, leaf2]"
  by (simp add: leafHash_record0 leafHash_record1 leafHash_record2)

lemma example_layers:
  "buildLayersLoop [] [leaf0, leaf1, leaf2]
     = Inr [[leaf0, leaf1, leaf2], [node01, node22], [root012]]"
proof -
  have l1: "nextLayer [leaf0, leaf1, leaf2] = Inr [node01, node22]"
    by (simp add: hashNode_leaf0_leaf1 hashNode_leaf2_leaf2 example_nonempty)
  have l2: "nextLayer [node01, node22] = Inr [root012]"
    by (simp add: hashNode_node01_node22 example_nonempty)
  show ?thesis
    by (simp add: buildLayersLoop.simps l1 l2 del: nextLayer.simps)
qed

lemma example_tree:
  "MerkleTreeUtils_generateMerkleTree [record0, record1, record2]
     = Inr (Some root012, [[leaf1, node22], [leaf0, node22], [node01]])"
  by (simp add: MerkleTreeUtils_generateMerkleTree_def example_leaves buildLayers_def
      example_layers rootOf_def upt_rec Let_def
      del: generateLeaves.simps)

lemma example_valid: "validBytes32 leaf0" "validBytes32 leaf1" "validBytes32 leaf2"
  using leafHash_record0 leafHash_record1 leafHash_record2 by (auto dest: leafHash_valid)

lemma example_tree_s:
  "generateMerkleTree [record0, record1, record2]
     = Inr (Some root012, [[Some leaf1, Some node22], [Some leaf0, Some node22], [Some node01]])"
proof -
  have valid: "list_all validBytes32 [leaf0, leaf1, leaf2]"
    by (simp add: example_valid)
  show ?thesis
    by (simp add: generateMerkleTree_def example_leaves buildLayers_s_def
        buildLayersLoop_s_eq [OF valid] example_layers rootOf_def upt_rec proofPath_s_eq Let_def
        del: generateLeaves.simps proofPath_s.simps)
qed

text \<open>
  Claim C1 says that every leaf verifies with its generated proof against the root. For
  the three example records it does not: the builder pairs the unpaired third leaf with
  itself, the proof generator emits no entry for that level, and \<^verbatim>\<open>verifyProof\<close> of the
  third leaf with its generated proof \<open>[node01]\<close> against the generated root is false,
  while the first two leaves verify.
\<close>
theorem unpaired_leaf_proof_fails:
  "generateMerkleTree [record0, record1, record2]
     = Inr (Some root012, [[Some leaf1, Some node22], [Some leaf0, Some node22], [Some node01]])
   \<and> MerkleTreeUtils_generateMerkleTree [record0, record1, record2]
     = Inr (Some root012, [[leaf1, node22], [leaf0, node22], [node01]])
   \<and> leafHash record0 = Inr leaf0 \<and> verifyProof leaf0 [leaf1, node22] root012 = Inr True
   \<and> leafHash record1 = Inr leaf1 \<and> verifyProof leaf1 [leaf0, node22] root012 = Inr True
   \<and> leafHash record2 = Inr leaf2 \<and> verifyProof leaf2 [node01] root012 = Inr False"
proof -
  have "hashNode leaf1 leaf0 = Inr node01"
    using hashNode_leaf0_leaf1 by (simp add: hashNode_commute [of leaf1 leaf0])
  then show ?thesis
    by (simp add: example_tree example_tree_s leafHash_record0 leafHash_record1 leafHash_record2
        verifyProof_def hashNode_leaf0_leaf1 hashNode_node01_node22 hashNode_leaf2_node01
        root012_def)
qed

theorem single_record_tree_witness:
  "(0 \<le> timestamp record0 \<and> timestamp record0 \<le> MAX_SAFE_INTEGER)
   \<and> generateMerkleTree [record0] = Inr (Some leaf0, [[]])
   \<and> MerkleTreeUtils_generateMerkleTree [record0] = Inr (Some leaf0, [[]])"
proof -
  have h: "0 \<le> timestamp record0 \<and> timestamp record0 \<le> MAX_SAFE_INTEGER"
    by (simp add: record0_def MAX_SAFE_INTEGER_def)
  from single_record_tree [of record0] leafHash_record0 h show ?thesis by simp
qed

theorem layer_shape_witness:
  "[leaf0, leaf1, leaf2] \<noteq> []
   \<and> validBytes32 leaf0 \<and> validBytes32 leaf1 \<and> validBytes32 leaf2
   \<and> buildLayers [leaf0, leaf1, leaf2] = Inr [[leaf0, leaf1, leaf2], [node01, node22], [root012]]
   \<and> buildLayers_s [leaf0, leaf1, leaf2] = Inr [[leaf0, leaf1, leaf2], [node01, node22], [root012]]
   \<and> length [node01, node22] = (length [leaf0, leaf1, leaf2] + 1) div 2
   \<and> length [root012] = (length [node01, node22] + 1) div 2
   \<and> length (last [[leaf0, leaf1, leaf2], [node01, node22], [root012]]) = 1"
proof -
  have h: "[leaf0, leaf1, leaf2] \<noteq> []" "\<forall>leaf \<in> set [leaf0, leaf1, leaf2]. validBytes32 leaf"
    by (simp_all add: example_valid)
  from layer_shape [OF h] example_layers h show ?thesis
    by (auto simp add: buildLayers_def)
qed

theorem implementations_agree_witness:
  "[record0, record1, record2] \<noteq> [] \<and> length [record0, record1, record2] < 2 ^ 31
   \<and> generateMerkleTree [record0, record1, record2]
       = Inr (Some root012, [[Some leaf1, Some node22], [Some leaf0, Some node22], [Some node01]])"
proof -
  have h: "[record0, record1, record2] \<noteq> []" "length [record0, record1, record2] < 2 ^ 31"
    by simp_all
  from implementations_agree [OF h] example_tree show ?thesis by simp
qed

section \<open>The leaf hash and the hash stored on chain\<close>

lemma safe_integer_uint256:
  "0 \<le> t \<Longrightarrow> t \<le> MAX_SAFE_INTEGER \<Longrightarrow> t mod 2 ^ 256 = t"
  by (simp add: MAX_SAFE_INTEGER_def)

text \<open>
  Claim C3. For every sensor record, whose timestamp ethers accepts as a
  \<^verbatim>\<open>uint256\<close>, the off-chain leaf hash is the hex form of the \<^verbatim>\<open>dataHash\<close> that
  \<^verbatim>\<open>storeData\<close> computes and stores for a record with the same five field values, byte
  for byte.
\<close>
theorem leaf_hash_matches_chain:
  assumes "0 \<le> timestamp r" and "timestamp r \<le> MAX_SAFE_INTEGER"
    and "recordCounter st + 1 < 2 ^ 256"
  shows "\<exists>st' stored.
           storeData True (nat (timestamp r)) st (toUtf8Bytes (deviceId r)) (toUtf8Bytes (data r))
               (toUtf8Bytes (dataType r)) (toUtf8Bytes (location r)) = Inr (st', recordCounter st)
           \<and> sensorRecords st' (recordCounter st) = Some stored
           \<and> stored_deviceId stored = toUtf8Bytes (deviceId r)
           \<and> int (stored_timestamp stored) = timestamp r
           \<and> stored_data stored = toUtf8Bytes (data r)
           \<and> stored_dataType stored = toUtf8Bytes (dataType r)
           \<and> stored_location stored = toUtf8Bytes (location r)
           \<and> leafHash r = Inr (hexlify (stored_dataHash stored))
           \<and> getBytes (hexlify (stored_dataHash stored)) = Some (stored_dataHash stored)"
  using assms safe_integer_uint256 [OF assms(1,2)]
  by (simp add: storeData_def Let_def leafHash_eq)

theorem leaf_hash_matches_chain_witness:
  "(0 \<le> timestamp record0 \<and> timestamp record0 \<le> MAX_SAFE_INTEGER
      \<and> recordCounter \<lparr>sensorRecords = Map.empty, recordCounter = 0\<rparr> + 1 < 2 ^ 256)
   \<and> (\<exists>st' stored.
         storeData True 1700000000 \<lparr>sensorRecords = Map.empty, recordCounter = 0\<rparr>
             (toUtf8Bytes ''device-001'') (toUtf8Bytes ''20'') (toUtf8Bytes ''temperature'')
             (toUtf8Bytes ''field-north'') = Inr (st', 0)
         \<and> sensorRecords st' 0 = Some stored
         \<and> leaf0 = hexlify (stored_dataHash stored))"
proof -
  have h: "0 \<le> timestamp record0" "timestamp record0 \<le> MAX_SAFE_INTEGER"
    "recordCounter \<lparr>sensorRecords = Map.empty, recordCounter = 0\<rparr> + 1 < 2 ^ 256"
    by (simp_all add: record0_def MAX_SAFE_INTEGER_def)
  from leaf_hash_matches_chain [OF h] obtain st' stored where
    "storeData True (nat (timestamp record0)) \<lparr>sensorRecords = Map.empty, recordCounter = 0\<rparr>
         (toUtf8Bytes (deviceId record0)) (toUtf8Bytes (data record0))
         (toUtf8Bytes (dataType record0)) (toUtf8Bytes (location record0)) = Inr (st', 0)"
    "sensorRecords st' 0 = Some stored"
    "leafHash record0 = Inr (hexlify (stored_dataHash stored))"
    by auto
  then show ?thesis using h leafHash_record0
    by (auto simp add: record0_def)
qed

section \<open>Aggregation\<close>

lemma generateMerkleTree_ok:
  assumes "records \<noteq> []"
    and "\<forall>r \<in> set records. 0 \<le> timestamp r \<and> timestamp r \<le> MAX_SAFE_INTEGER"
  shows "\<exists>merkleRoot proofs. generateMerkleTree records = Inr (merkleRoot, proofs)"
proof -
  from generateLeaves_ok [OF assms(2)] obtain leaves where
    leaves: "generateLeaves records = Inr leaves" by blast
  from generateLeaves_valid [OF leaves] have valid: "list_all validBytes32 leaves" by simp
  from buildLayersLoop_ok [OF valid] obtain layers where
    layers: "buildLayersLoop [] leaves = Inr layers" by blast
  from buildLayersLoop_shape [OF layers] have "layers \<noteq> []" by auto
  then obtain merkleRoot where "rootOf layers = Inr merkleRoot"
    by (simp add: rootOf_def)
  with assms(1) leaves layers show ?thesis
    by (simp add: generateMerkleTree_def buildLayers_s_def buildLayersLoop_s_eq [OF valid])
qed

subsection \<open>Numbers\<close>

lemma bits_pos: "0 < n \<Longrightarrow> bits n = Suc (bits (n div 2))"
  by (subst bits.simps) simp

lemma bits_nonpos: "n \<le> 0 \<Longrightarrow> bits n = 0"
  by (subst bits.simps) simp

lemma bits_bounds: "0 < n \<Longrightarrow> 2 ^ (bits n - 1) \<le> n \<and> n < 2 ^ bits n"
proof (induction n rule: bits.induct)
  case (1 n)
  show ?case
  proof (cases "n = 1")
    case True
    then show ?thesis by (simp add: bits_pos bits_nonpos)
  next
    case False
    with "1.prems" have half: "0 < n div 2" by simp
    from "1.IH" half "1.prems" have ih: "2 ^ (bits (n div 2) - 1) \<le> n div 2" "n div 2 < 2 ^ bits (n div 2)"
      by simp_all
    from half have "bits (n div 2) = Suc (bits (n div 2 div 2))" by (rule bits_pos)
    then obtain c where c: "bits (n div 2) = Suc c" by blast
    with ih have "2 ^ c \<le> n div 2" "n div 2 < 2 * 2 ^ c" by simp_all
    then have "2 * 2 ^ c \<le> n" "n < 2 * (2 * 2 ^ c)" by linarith+
    with "1.prems" c show ?thesis by (simp add: bits_pos)
  qed
qed

lemma bits_eq:
  assumes "2 ^ b \<le> n" and "n < 2 * 2 ^ b"
  shows "bits n = Suc b"
proof -
  have "(0::int) < 2 ^ b" by simp
  with assms(1) have pos: "0 < n" by linarith
  from bits_bounds [OF pos] have lo: "2 ^ (bits n - 1) \<le> n" and hi: "n < 2 ^ bits n" by simp_all
  have "(2::int) ^ b < 2 ^ bits n" using assms(1) hi by linarith
  then have 1: "b < bits n" by (simp add: power_strict_increasing_iff)
  have "(2::int) ^ (bits n - 1) < 2 ^ Suc b" using assms(2) lo by simp
  then have 2: "bits n - 1 < Suc b" by (simp only: power_strict_increasing_iff)
  from 1 2 show ?thesis by linarith
qed

lemma roundRatio_zero: "0 < den \<Longrightarrow> roundRatio 0 den = Fin 0"
  by (simp add: roundRatio_def bits_nonpos)

lemma roundRatio_positive:
  assumes "0 < m"
  shows "positive (roundRatio m 1) \<and> \<not> positive (neg (roundRatio m 1))
           \<and> \<not> isNaN (roundRatio m 1)"
proof -
  let ?shift = "bits m - 53"
  from bits_bounds [OF assms] have lo: "2 ^ (bits m - 1) \<le> m" by simp
  have "(2::int) ^ ?shift \<le> 2 ^ (bits m - 1)"
    by (rule power_increasing) simp_all
  with lo have "2 ^ ?shift \<le> m" by linarith
  moreover have "(0::int) < 2 ^ ?shift" by simp
  ultimately have "0 < m div 2 ^ ?shift"
    by (simp only: pos_imp_zdiv_pos_iff)
  then have "1 \<le> m div 2 ^ ?shift" by simp
  then have "0 < (if 2 * (m mod 2 ^ ?shift) > 2 ^ ?shift
                  \<or> (2 * (m mod 2 ^ ?shift) = 2 ^ ?shift \<and> odd (m div 2 ^ ?shift))
                  then m div 2 ^ ?shift + 1 else m div 2 ^ ?shift) * 2 ^ ?shift"
    by simp
  then show ?thesis
    by (simp add: roundRatio_def Let_def)
qed

lemma positive_sub:
  assumes "\<not> isNaN x" and "\<not> isNaN y"
  shows "positive (num_sub x y) \<longleftrightarrow> \<not> below x y"
proof -
  have fin: "positive (roundSigned d 1) \<longleftrightarrow> 0 < d" for d
    using roundRatio_positive [of d] roundRatio_positive [of "- d"] roundRatio_zero [of 1]
    by (cases "d = 0") (auto simp add: roundSigned_def)
  show ?thesis
    using assms by (cases x; cases y) (auto simp add: num_sub_def fin)
qed

lemma below_refl: "\<not> isNaN x \<Longrightarrow> below x x"
  by (cases x) auto

lemma below_trans: "below x y \<Longrightarrow> below y z \<Longrightarrow> below x z"
  by (cases x; cases y; cases z) auto

lemma below_total: "\<not> isNaN x \<Longrightarrow> \<not> isNaN y \<Longrightarrow> below x y \<or> below y x"
  by (cases x; cases y) auto

lemma mset_insertNumber: "mset (insertNumber x ys) = add_mset x (mset ys)"
  by (induction ys) auto

lemma mset_sortConsistent: "mset (foldr insertNumber xs []) = mset xs"
  by (induction xs) (auto simp add: mset_insertNumber)

lemma set_insertNumber: "set (insertNumber x ys) = insert x (set ys)"
  using mset_insertNumber [of x ys] by (metis set_mset_add_mset_insert set_mset_mset)

lemma sorted_insertNumber:
  assumes "sorted_wrt below ys" and "\<not> isNaN x" and "\<forall>y \<in> set ys. \<not> isNaN y"
  shows "sorted_wrt below (insertNumber x ys)"
  using assms
proof (induction ys)
  case Nil
  show ?case by simp
next
  case (Cons y ys)
  show ?case
  proof (cases "positive (num_sub x y)")
    case True
    with Cons.prems have "\<not> below x y" by (simp add: positive_sub)
    with Cons.prems have yx: "below y x" using below_total [of x y] by auto
    from Cons have "sorted_wrt below (insertNumber x ys)" by simp
    with True yx Cons.prems show ?thesis
      by (auto simp add: set_insertNumber)
  next
    case False
    with Cons.prems have xy: "below x y" by (simp add: positive_sub)
    with Cons.prems have "\<forall>z \<in> set ys. below x z" using below_trans by auto
    with False xy Cons.prems show ?thesis by simp
  qed
qed

lemma sorted_sortConsistent:
  "\<forall>x \<in> set xs. \<not> isNaN x \<Longrightarrow> sorted_wrt below (foldr insertNumber xs [])"
proof (induction xs)
  case Nil
  show ?case by simp
next
  case (Cons x xs)
  have "\<forall>y \<in> set (foldr insertNumber xs []). \<not> isNaN y"
    using Cons.prems mset_sortConsistent [of xs] by (metis list.set_intros(2) mset_eq_setD)
  with Cons show ?case by (simp add: sorted_insertNumber)
qed

lemma sortNumbers_mset: "mset (sortNumbers engine xs) = mset xs"
  by (simp add: sortNumbers_def Let_def mset_sortConsistent)

lemma finite_not_NaN: "isFinite x \<Longrightarrow> \<not> isNaN x"
  by (cases x) simp_all

lemma sortNumbers_sorted:
  "list_all isFinite xs \<Longrightarrow> sorted_wrt below (sortNumbers engine xs)"
  by (simp add: sortNumbers_def sorted_sortConsistent list_all_iff finite_not_NaN)

lemma bits_scaled: "0 < n \<Longrightarrow> bits (n * 2 ^ e) = bits n + e"
proof (induction e)
  case 0
  show ?case by simp
next
  case (Suc e)
  from Suc.prems have pos: "0 < 2 * (n * 2 ^ e)" by simp
  have "bits (n * 2 ^ Suc e) = bits (2 * (n * 2 ^ e))" by (simp add: mult.commute mult.left_commute)
  also have "\<dots> = Suc (bits (n * 2 ^ e))" using pos by (simp add: bits_pos)
  finally show ?case using Suc by simp
qed

lemma bits_le:
  assumes "0 < n" and "n < 2 ^ b"
  shows "bits n \<le> b"
proof -
  from bits_bounds [OF assms(1)] have "(2::int) ^ (bits n - 1) < 2 ^ b" using assms(2) by linarith
  then have "bits n - 1 < b" by (simp only: power_strict_increasing_iff)
  then show ?thesis by linarith
qed

lemma roundRatio_exact:
  assumes "0 < m" and "m < 2 ^ 53" and "m * 2 ^ e < 2 ^ 2098"
  shows "roundRatio (m * 2 ^ e) 1 = Fin (m * 2 ^ e)"
proof -
  define s where "s = bits (m * 2 ^ e) - 53"
  have "bits m \<le> 53" using assms(1,2) by (rule bits_le)
  then have "s \<le> e" by (simp add: s_def bits_scaled [OF assms(1)])
  then obtain k where e: "e = k + s" by (metis le_add_diff_inverse2)
  have eq: "m * 2 ^ e = (m * 2 ^ k) * 2 ^ s" by (simp add: e power_add)
  have q: "m * 2 ^ e div 2 ^ s = m * 2 ^ k" unfolding eq by simp
  have r: "m * 2 ^ e mod 2 ^ s = 0" unfolding eq by simp
  have res: "m * 2 ^ k * 2 ^ s < 2 ^ 2098" using assms(3) eq by simp
  show ?thesis
    unfolding roundRatio_def Let_def
    using q r res by (simp add: s_def [symmetric] eq [symmetric])
qed

lemma int_div_lower: "0 < den \<Longrightarrow> lo * den \<le> num \<Longrightarrow> lo \<le> num div den" for num den :: int
  using zdiv_mono1 by fastforce

lemma int_div_upper:
  fixes num den :: int
  assumes "0 < den" and "num < hi * den"
  shows "num div den < hi"
proof -
  have "num div den * den \<le> num"
    using div_mult_mod_eq [of num den] pos_mod_sign [OF assms(1), of num] by linarith
  with assms(2) have "num div den * den < hi * den" by linarith
  with assms(1) show ?thesis by (simp add: mult_less_cancel_right)
qed

lemma int_div_mult_le: "0 < den \<Longrightarrow> num div den * den \<le> num" for num den :: int
  using div_mult_mod_eq [of num den] pos_mod_sign [of den num] by linarith

lemma int_div_mult_gt:
  fixes num den :: int
  assumes "0 < den"
  shows "num < (num div den + 1) * den"
proof -
  have "(num div den + 1) * den = num div den * den + den" by (simp add: algebra_simps)
  then show ?thesis
    using div_mult_mod_eq [of num den] pos_mod_bound [OF assms, of num] by linarith
qed

lemma bits_div_scaled:
  assumes "0 < den" and "0 < num div den"
  shows "bits (num * 2 ^ e div den) = bits (num div den) + e"
proof -
  define b where "b = bits (num div den) - 1"
  have b: "bits (num div den) = Suc b"
    using bits_pos [OF assms(2)] by (simp add: b_def)
  from bits_bounds [OF assms(2)] have lo: "2 ^ b \<le> num div den" and hi: "num div den < 2 * 2 ^ b"
    by (simp_all add: b)
  have "2 ^ b * den \<le> num div den * den" using lo assms(1) by simp
  also have "\<dots> \<le> num" using assms(1) by (rule int_div_mult_le)
  finally have "2 ^ b * den * 2 ^ e \<le> num * 2 ^ e" by simp
  then have "2 ^ (b + e) * den \<le> num * 2 ^ e" by (simp add: power_add mult_ac)
  with assms(1) have 1: "2 ^ (b + e) \<le> num * 2 ^ e div den" by (rule int_div_lower)
  have "num div den + 1 \<le> 2 * 2 ^ b" using hi by simp
  then have "(num div den + 1) * den \<le> 2 * 2 ^ b * den" using assms(1) by simp
  with int_div_mult_gt [OF assms(1), of num] have "num < 2 * 2 ^ b * den" by linarith
  then have "num * 2 ^ e < 2 * 2 ^ b * den * 2 ^ e" by simp
  then have "num * 2 ^ e < 2 * 2 ^ (b + e) * den" by (simp add: power_add mult_ac)
  with assms(1) have 2: "num * 2 ^ e div den < 2 * 2 ^ (b + e)" by (rule int_div_upper)
  from 1 2 have "bits (num * 2 ^ e div den) = Suc (b + e)" by (rule bits_eq)
  with b show ?thesis by simp
qed

lemma roundRatio_scaled:
  assumes "0 < den" and "53 \<le> bits (num div den)" and "roundRatio num den = Fin r"
    and "r * 2 ^ e < 2 ^ 2098"
  shows "roundRatio (num * 2 ^ e) den = Fin (r * 2 ^ e)"
proof -
  define s where "s = bits (num div den) - 53"
  define d where "d = den * 2 ^ s"
  define n where "n = (if 2 * (num mod d) > d \<or> (2 * (num mod d) = d \<and> odd (num div d))
                       then num div d + 1 else num div d)"
  have pos: "0 < num div den" using assms(2) bits_nonpos [of "num div den"] by (cases "0 < num div den") simp_all
  have s': "bits (num * 2 ^ e div den) - 53 = s + e"
    using assms(2) by (simp add: bits_div_scaled [OF assms(1) pos] s_def)
  have d': "den * 2 ^ (s + e) = d * 2 ^ e" by (simp add: d_def power_add)
  have dpos: "0 < d" using assms(1) by (simp add: d_def)
  have q': "num * 2 ^ e div (d * 2 ^ e) = num div d" by simp
  have r': "num * 2 ^ e mod (d * 2 ^ e) = num mod d * 2 ^ e" by simp
  have c1: "d * 2 ^ e < 2 * (num mod d * 2 ^ e) \<longleftrightarrow> d < 2 * (num mod d)"
  proof -
    have "2 * (num mod d * 2 ^ e) = (2 * (num mod d)) * 2 ^ e" by simp
    then show ?thesis by (simp only: mult_less_cancel_right) simp
  qed
  have c2: "2 * (num mod d * 2 ^ e) = d * 2 ^ e \<longleftrightarrow> 2 * (num mod d) = d"
  proof -
    have "2 * (num mod d * 2 ^ e) = (2 * (num mod d)) * 2 ^ e" by simp
    then show ?thesis by (simp only: mult_cancel_right) simp
  qed
  from assms(3) have old: "n * 2 ^ s = r"
    unfolding roundRatio_def Let_def s_def [symmetric] d_def [symmetric] n_def [symmetric]
    by (simp split: if_splits)
  have "n * 2 ^ (s + e) = r * 2 ^ e" using old by (simp add: power_add)
  with assms(4) show ?thesis
    unfolding roundRatio_def Let_def s' d' q' r' c1 c2 n_def [symmetric]
    by simp
qed

lemma roundRatio_cancel:
  assumes "0 < c"
  shows "roundRatio (a * c) (b * c) = roundRatio a b"
proof -
  define s where "s = bits (a div b) - 53"
  define d where "d = b * 2 ^ s"
  have c0: "c \<noteq> 0" using assms by simp
  have q0: "a * c div (b * c) = a div b" using c0 by simp
  have d': "b * c * 2 ^ s = d * c" by (simp add: d_def mult_ac)
  have q': "a * c div (d * c) = a div d" using c0 by simp
  have r': "a * c mod (d * c) = a mod d * c" using c0 by simp
  have c1: "d * c < 2 * (a mod d * c) \<longleftrightarrow> d < 2 * (a mod d)"
  proof -
    have "2 * (a mod d * c) = (2 * (a mod d)) * c" by simp
    then show ?thesis using assms by (simp only: mult_less_cancel_right) simp
  qed
  have c2: "2 * (a mod d * c) = d * c \<longleftrightarrow> 2 * (a mod d) = d"
  proof -
    have "2 * (a mod d * c) = (2 * (a mod d)) * c" by simp
    then show ?thesis using c0 by (simp only: mult_cancel_right) simp
  qed
  show ?thesis
    unfolding roundRatio_def Let_def q0 s_def [symmetric] d' q' r' c1 c2 d_def [symmetric]
    by simp
qed

lemma below_overflow:
  fixes r :: int
  assumes "r < 2 ^ 64" and "e \<le> 2034"
  shows "r * 2 ^ e < 2 ^ 2098"
proof -
  have "r * 2 ^ e < 2 ^ 64 * 2 ^ e" using assms(1) by simp
  also have "\<dots> = 2 ^ (64 + e)" by (simp add: power_add)
  also have "\<dots> \<le> 2 ^ 2098" using assms(2) by (intro power_increasing) simp_all
  finally show ?thesis .
qed

lemma num_add_exact:
  assumes "a + b = c" and "0 < c" and "c < 2 ^ 53" and "e \<le> 2034"
  shows "num_add (Fin (a * 2 ^ e)) (Fin (b * 2 ^ e)) = Fin (c * 2 ^ e)"
proof -
  have "c * 2 ^ e < 2 ^ 2098" using assms(3,4) by (intro below_overflow) simp_all
  with assms(2,3) have "roundRatio (c * 2 ^ e) 1 = Fin (c * 2 ^ e)"
    by (intro roundRatio_exact)
  moreover have "\<not> c * 2 ^ e < 0" using assms(2) by (simp add: mult_less_0_iff)
  moreover have "a * 2 ^ e + b * 2 ^ e = c * 2 ^ e" using assms(1) by (simp add: distrib_right [symmetric])
  ultimately show ?thesis by (simp add: roundSigned_def)
qed

lemma num_add_rounded:
  assumes "a + b = c" and "0 < c" and "53 \<le> bits c" and "roundRatio c 1 = Fin r"
    and "r < 2 ^ 64" and "e \<le> 2034"
  shows "num_add (Fin (a * 2 ^ e)) (Fin (b * 2 ^ e)) = Fin (r * 2 ^ e)"
proof -
  have "r * 2 ^ e < 2 ^ 2098" using assms(5,6) by (rule below_overflow)
  with assms(3,4) have "roundRatio (c * 2 ^ e) 1 = Fin (r * 2 ^ e)"
    by (intro roundRatio_scaled) simp_all
  moreover have "\<not> c * 2 ^ e < 0" using assms(2) by (simp add: mult_less_0_iff)
  moreover have "a * 2 ^ e + b * 2 ^ e = c * 2 ^ e" using assms(1) by (simp add: distrib_right [symmetric])
  ultimately show ?thesis by (simp add: roundSigned_def)
qed

lemma num_add_zero:
  assumes "0 < k" and "k < 2 ^ 53" and "e \<le> 2034"
  shows "num_add (Fin 0) (Fin (k * 2 ^ e)) = Fin (k * 2 ^ e)"
  using num_add_exact [of 0 k k e] assms by simp

lemma num_div_rounded:
  assumes "0 < a" and "0 < b" and "53 \<le> bits (a div b)" and "roundRatio a b = Fin r"
    and "r < 2 ^ 64" and "e \<le> 2034"
  shows "num_div (Fin (a * 2 ^ e)) (Fin (b * 2 ^ 1074)) = Fin (r * 2 ^ e)"
proof -
  have "r * 2 ^ e < 2 ^ 2098" using assms(5,6) by (rule below_overflow)
  with assms(2,3,4) have "roundRatio (a * 2 ^ e) b = Fin (r * 2 ^ e)"
    by (intro roundRatio_scaled)
  moreover have "roundRatio (a * 2 ^ e * 2 ^ 1074) (b * 2 ^ 1074) = roundRatio (a * 2 ^ e) b"
    by (rule roundRatio_cancel) simp
  moreover have "\<bar>a * 2 ^ e\<bar> = a * 2 ^ e" "\<bar>b * 2 ^ 1074\<bar> = b * 2 ^ 1074"
    using assms(1,2) by (simp_all add: abs_mult)
  moreover have "\<not> a * 2 ^ e < 0" "\<not> b * 2 ^ 1074 < 0" "b * 2 ^ 1074 \<noteq> 0"
    using assms(1,2) by (simp_all add: mult_less_0_iff)
  ultimately show ?thesis by (simp add: num_div_def signed_def)
qed

lemma numberOfNat_small:
  assumes "int n < 2 ^ 53"
  shows "numberOfNat n = Fin (int n * 2 ^ 1074)"
proof (cases "n = 0")
  case True
  then show ?thesis by (simp add: numberOfNat_def roundRatio_zero)
next
  case False
  have "int n * 2 ^ 1074 < 2 ^ 2098" using assms by (intro below_overflow) simp_all
  with assms False show ?thesis unfolding numberOfNat_def by (intro roundRatio_exact) simp_all
qed

lemma numberOfNat_add:
  assumes "0 < m + n" and "int (m + n) < 2 ^ 53"
  shows "num_add (numberOfNat m) (numberOfNat n) = numberOfNat (m + n)"
proof -
  have "int m < 2 ^ 53" "int n < 2 ^ 53" using assms(2) by simp_all
  then have "numberOfNat m = Fin (int m * 2 ^ 1074)" "numberOfNat n = Fin (int n * 2 ^ 1074)"
    by (simp_all only: numberOfNat_small)
  moreover have "num_add (Fin (int m * 2 ^ 1074)) (Fin (int n * 2 ^ 1074)) = Fin (int (m + n) * 2 ^ 1074)"
    using assms by (intro num_add_exact) auto
  ultimately show ?thesis using assms(2) by (simp only: numberOfNat_small)
qed

lemma numberOfNat_add_zero:
  assumes "0 < n" and "int n < 2 ^ 53"
  shows "num_add (Fin 0) (numberOfNat n) = numberOfNat n"
proof -
  have "num_add (Fin 0) (Fin (int n * 2 ^ 1074)) = Fin (int n * 2 ^ 1074)"
    using assms by (intro num_add_zero) simp_all
  with assms(2) show ?thesis by (simp only: numberOfNat_small)
qed

lemma numberOfNat_below:
  assumes "int m < 2 ^ 53" and "int n < 2 ^ 53"
  shows "below (numberOfNat m) (numberOfNat n) \<longleftrightarrow> m \<le> n"
  using assms by (simp add: numberOfNat_small)

lemma roundRatio_not_NaN: "\<not> isNaN (roundRatio num den)"
  by (simp add: roundRatio_def Let_def)

lemma numberOfNat_not_NaN: "\<not> isNaN (numberOfNat n)"
  by (simp add: numberOfNat_def roundRatio_not_NaN)

lemma numberOfNat_finite: "int n < 2 ^ 53 \<Longrightarrow> isFinite (numberOfNat n)"
  by (simp add: numberOfNat_small)

lemma bits_small:
  "bits 14411518807585588 = Suc 53"
  "bits 21617278211378382 = Suc 54"
  "bits (21617278211378384 div 3) = Suc 52"
  "bits (17169973579350016 div 3) = Suc 52"
  "bits (72057594037927936 div 10) = Suc 52"
  by (rule bits_eq, simp, simp)+

lemma round_small:
  "roundRatio 14411518807585588 1 = Fin 14411518807585588"
  "roundRatio 21617278211378382 1 = Fin 21617278211378384"
  "roundRatio 21617278211378384 3 = Fin 7205759403792795"
  "roundRatio 17169973579350016 3 = Fin 5723324526450005"
  "roundRatio 72057594037927936 10 = Fin 7205759403792794"
  using bits_small by (simp_all add: roundRatio_def Let_def)

subsection \<open>One tenth, three times\<close>

lemma three: "numberOfNat 3 = Fin (3 * 2 ^ 1074)"
  using numberOfNat_small [of 3] by (simp only: of_nat_numeral) simp

text \<open>\<^verbatim>\<open>1 / 10\<close> is \<^verbatim>\<open>0.1\<close>.\<close>

lemma one_by_ten: "num_div (numberOfNat 1) (numberOfNat 10) = tenth"
proof -
  have "(1::int) * 2 ^ 1074 = 72057594037927936 * 2 ^ 1018" by simp
  moreover have "num_div (Fin (72057594037927936 * 2 ^ 1018)) (Fin (10 * 2 ^ 1074))
      = Fin (7205759403792794 * 2 ^ 1018)"
    by (rule num_div_rounded) (simp_all add: bits_small [simplified] round_small)
  moreover have "numberOfNat 1 = Fin (1 * 2 ^ 1074)"
    using numberOfNat_small [of 1] by simp
  moreover have "numberOfNat 10 = Fin (10 * 2 ^ 1074)"
    using numberOfNat_small [of 10] by (simp only: of_nat_numeral) simp
  ultimately show ?thesis by (simp only: tenth_def)
qed

lemma sum_of_tenths:
  "foldl num_add (Fin 0) [tenth, tenth, tenth] = Fin (21617278211378384 * 2 ^ 1018)"
proof -
  have "num_add (Fin 0) tenth = tenth"
    unfolding tenth_def by (rule num_add_zero) simp_all
  moreover have "num_add tenth tenth = Fin (14411518807585588 * 2 ^ 1018)"
    unfolding tenth_def by (rule num_add_rounded [where c = 14411518807585588])
      (simp_all add: bits_small round_small)
  moreover have "num_add (Fin (14411518807585588 * 2 ^ 1018)) tenth = Fin (21617278211378384 * 2 ^ 1018)"
    unfolding tenth_def by (rule num_add_rounded [where c = 21617278211378382])
      (simp_all add: bits_small round_small)
  ultimately show ?thesis by (simp only: foldl.simps)
qed

lemma average_of_tenths:
  "num_div (foldl num_add (Fin 0) [tenth, tenth, tenth]) (numberOfNat 3) = tenth_above"
proof -
  have "num_div (Fin (21617278211378384 * 2 ^ 1018)) (Fin (3 * 2 ^ 1074)) = Fin (7205759403792795 * 2 ^ 1018)"
    by (rule num_div_rounded) (simp_all add: bits_small [simplified] round_small)
  then show ?thesis by (simp only: sum_of_tenths three tenth_above_def)
qed

lemma tenth_order:
  "isFinite tenth" "\<not> isNaN tenth" "below tenth tenth" "\<not> below tenth_above tenth"
  by (simp_all add: tenth_def tenth_above_def)

lemma tenth_values:
  "valueOf tenth_above \<noteq> valueOf tenth"
  by (simp add: tenth_def tenth_above_def)

lemma average_61_3:
  "num_div (numberOfNat 61) (numberOfNat 3) = Fin (5723324526450005 * 2 ^ 1026)"
proof -
  have "(61::int) * 2 ^ 1074 = 17169973579350016 * 2 ^ 1026" by simp
  moreover have "num_div (Fin (17169973579350016 * 2 ^ 1026)) (Fin (3 * 2 ^ 1074)) = Fin (5723324526450005 * 2 ^ 1026)"
    by (rule num_div_rounded) (simp_all add: bits_small [simplified] round_small)
  moreover have "numberOfNat 61 = Fin (61 * 2 ^ 1074)"
    using numberOfNat_small [of 61] by (simp only: of_nat_numeral) simp
  ultimately show ?thesis by (simp only: three)
qed

lemma average_near: "\<bar>real_of_int (5723324526450005 * 2 ^ 1026) / 2 ^ 1074 - 20.33\<bar> < 0.01"
  by simp

subsection \<open>Statistics\<close>

lemma calculateStatistics_empty:
  "calculateStatistics E [] =
     \<lparr>min_s = Fin 0, max_s = Fin 0, average_s = Fin 0, median_s = Fin 0,
      standardDeviation_s = Fin 0\<rparr>"
  by (simp add: calculateStatistics_def)

lemma length_sortNumbers: "length (sortNumbers E xs) = length xs"
  using sortNumbers_mset [of E xs] by (rule mset_eq_length)

lemma set_sortNumbers: "set (sortNumbers E xs) = set xs"
  using sortNumbers_mset [of E xs] by (rule mset_eq_setD)

lemma calculateStatistics_nonempty:
  assumes "xs \<noteq> []"
  shows "min_s (calculateStatistics E xs) = sortNumbers E xs ! 0"
    and "max_s (calculateStatistics E xs) = sortNumbers E xs ! (length xs - 1)"
    and "average_s (calculateStatistics E xs) = rounded_mean (sortNumbers E xs)"
    and "median_s (calculateStatistics E xs) =
           (if even (length xs)
            then num_div (num_add (sortNumbers E xs ! (length xs div 2 - 1))
                            (sortNumbers E xs ! (length xs div 2))) (numberOfNat 2)
            else sortNumbers E xs ! (length xs div 2))"
    and "standardDeviation_s (calculateStatistics E xs) =
           Math_sqrt E (rounded_mean
             (map (\<lambda>x. Math_pow E (num_sub x (rounded_mean (sortNumbers E xs))) (numberOfNat 2))
                (sortNumbers E xs)))"
  using assms
  by (simp_all add: calculateStatistics_def Let_def rounded_mean_def length_sortNumbers
      even_iff_mod_2_eq_zero)

lemma sorted_below_first:
  assumes "sorted_wrt below ys" and "\<forall>y \<in> set ys. \<not> isNaN y" and "x \<in> set ys"
  shows "below (hd ys) x"
  using assms by (cases ys) (auto simp add: below_refl)

lemma sorted_below_last:
  assumes "sorted_wrt below ys" and "\<forall>y \<in> set ys. \<not> isNaN y" and "x \<in> set ys"
  shows "below x (last ys)"
  using assms
proof (induction ys)
  case Nil
  then show ?case by simp
next
  case (Cons y ys)
  show ?case
  proof (cases "ys = []")
    case True
    with Cons.prems show ?thesis by (simp add: below_refl)
  next
    case False
    then have mem: "last ys \<in> set ys" by simp
    show ?thesis
    proof (cases "x = y")
      case True
      with Cons.prems mem False show ?thesis by auto
    next
      case neq: False
      with Cons.prems have "x \<in> set ys" by simp
      with Cons False show ?thesis by simp
    qed
  qed
qed

lemma statistics_of_numbers:
  assumes "xs \<noteq> []" and "list_all isFinite xs"
  shows "\<exists>ascending.
           mset ascending = mset xs
         \<and> sorted_wrt below ascending
         \<and> min_s (calculateStatistics E xs) = hd ascending
         \<and> min_s (calculateStatistics E xs) \<in> set xs
         \<and> (\<forall>x \<in> set xs. below (min_s (calculateStatistics E xs)) x)
         \<and> max_s (calculateStatistics E xs) = last ascending
         \<and> max_s (calculateStatistics E xs) \<in> set xs
         \<and> (\<forall>x \<in> set xs. below x (max_s (calculateStatistics E xs)))
         \<and> average_s (calculateStatistics E xs) = rounded_mean ascending
         \<and> median_s (calculateStatistics E xs) =
             (if even (length ascending)
              then num_div (num_add (ascending ! (length ascending div 2 - 1))
                              (ascending ! (length ascending div 2))) (numberOfNat 2)
              else ascending ! (length ascending div 2))
         \<and> standardDeviation_s (calculateStatistics E xs) =
             Math_sqrt E (rounded_mean
               (map (\<lambda>x. Math_pow E (num_sub x (average_s (calculateStatistics E xs)))
                            (numberOfNat 2)) ascending))"
proof -
  let ?ys = "sortNumbers E xs"
  have len: "length ?ys = length xs" by (rule length_sortNumbers)
  have ne: "?ys \<noteq> []" using assms(1) len by auto
  have set: "set ?ys = set xs" by (rule set_sortNumbers)
  have sorted: "sorted_wrt below ?ys" using assms(2) by (rule sortNumbers_sorted)
  have nan: "\<forall>y \<in> set ?ys. \<not> isNaN y"
    using assms(2) set by (simp add: list_all_iff finite_not_NaN)
  have first: "min_s (calculateStatistics E xs) = hd ?ys"
    using ne by (simp add: calculateStatistics_nonempty(1) [OF assms(1)] hd_conv_nth)
  have final: "max_s (calculateStatistics E xs) = last ?ys"
    using ne by (simp add: calculateStatistics_nonempty(2) [OF assms(1)] last_conv_nth len)
  have "hd ?ys \<in> set ?ys" "last ?ys \<in> set ?ys" using ne by simp_all
  then have "hd ?ys \<in> set xs" "last ?ys \<in> set xs" by (simp_all only: set)
  moreover have "\<forall>x \<in> set xs. below (hd ?ys) x"
    using sorted_below_first [OF sorted nan] set by blast
  moreover have "\<forall>x \<in> set xs. below x (last ?ys)"
    using sorted_below_last [OF sorted nan] set by blast
  ultimately show ?thesis
    using sortNumbers_mset [of E xs] sorted first final
      calculateStatistics_nonempty(3,4,5) [OF assms(1), of E]
    by (intro exI [of _ ?ys]) (simp add: len)
qed

subsection \<open>Three samples of one tenth\<close>

lemma sort_tenths: "sortNumbers E [tenth, tenth, tenth] = [tenth, tenth, tenth]"
  by (simp add: sortNumbers_def positive_sub tenth_order)

lemma three_tenths: "average_s (calculateStatistics E [tenth, tenth, tenth]) = tenth_above"
proof -
  have len: "length [tenth, tenth, tenth] = 3" by simp
  have "average_s (calculateStatistics E [tenth, tenth, tenth])
      = rounded_mean (sortNumbers E [tenth, tenth, tenth])"
    by (rule calculateStatistics_nonempty) simp
  also have "\<dots> = num_div (foldl num_add (Fin 0) [tenth, tenth, tenth]) (numberOfNat 3)"
    by (simp only: sort_tenths rounded_mean_def len)
  also have "\<dots> = tenth_above" by (rule average_of_tenths)
  finally show ?thesis .
qed

lemma mean_of_tenths: "map_option spec_mean (valuesOf [tenth, tenth, tenth]) = valueOf tenth"
  by (simp add: tenth_def spec_mean_def)

subsection \<open>Grouping\<close>

lemma map_of_mapPush:
  "map_of (mapPush k v m) =
     (map_of m)(k \<mapsto> (case map_of m k of None \<Rightarrow> [v] | Some vs \<Rightarrow> vs @ [v]))"
  by (induction m) (auto simp add: fun_eq_iff)

lemma keys_mapPush: "fst ` set (mapPush k v m) = insert k (fst ` set m)"
  by (simp add: dom_map_of_conv_image_fst [symmetric] map_of_mapPush)

lemma distinct_mapPush: "distinct (map fst m) \<Longrightarrow> distinct (map fst (mapPush k v m))"
  by (induction m) (auto simp add: keys_mapPush)

lemma distinct_groupReadingsLoop:
  "distinct (map fst acc) \<Longrightarrow> distinct (map fst (groupReadingsLoop acc readings))"
  by (induction readings arbitrary: acc) (simp_all add: distinct_mapPush)

lemma map_of_groupReadingsLoop:
  "map_of (groupReadingsLoop acc readings) k =
     (case map_of acc k of
        None \<Rightarrow> if groupOf k readings = [] then None else Some (groupOf k readings)
      | Some vs \<Rightarrow> Some (vs @ groupOf k readings))"
  by (induction readings arbitrary: acc)
     (auto simp add: groupOf_def map_of_mapPush split: option.splits)

lemma group_in_groupReadings:
  assumes "(k, members) \<in> set (groupReadingsLoop [] readings)"
  shows "members = groupOf k readings \<and> members \<noteq> []"
proof -
  have "distinct (map fst (groupReadingsLoop [] readings))"
    by (rule distinct_groupReadingsLoop) simp
  with assms have "map_of (groupReadingsLoop [] readings) k = Some members"
    by simp
  then show ?thesis
    by (simp add: map_of_groupReadingsLoop split: if_splits)
qed

lemma groupOf_nonempty_iff: "groupOf k readings \<noteq> [] \<longleftrightarrow> k \<in> groupKey ` set readings"
  by (auto simp add: groupOf_def filter_empty_conv)

lemma keys_groupReadings:
  "fst ` set (groupReadingsLoop [] readings) = groupKey ` set readings"
proof -
  have "fst ` set (groupReadingsLoop [] readings) = dom (map_of (groupReadingsLoop [] readings))"
    by (simp add: dom_map_of_conv_image_fst)
  also have "\<dots> = {k. groupOf k readings \<noteq> []}"
    by (auto simp add: dom_def map_of_groupReadingsLoop)
  also have "\<dots> = groupKey ` set readings"
    by (auto simp add: groupOf_nonempty_iff)
  finally show ?thesis .
qed

subsection \<open>The aggregate of a group\<close>

lemma aggregateGroup_ok:
  assumes "members \<noteq> []"
    and "\<forall>r \<in> set members. 0 \<le> timestamp r \<and> timestamp r \<le> MAX_SAFE_INTEGER"
  shows "\<exists>a. aggregateGroup P S D E key members = Inr a
           \<and> deviceId_a a = arrayAt (split CHR ''-'' key) 0
           \<and> dataType_a a = arrayAt (split CHR ''-'' key) 1
           \<and> recordCount a = length members
           \<and> min_a a = min_s (calculateStatistics E
                 (List.map_filter (extractNumericValue P) (sort_key timestamp members)))
           \<and> max_a a = max_s (calculateStatistics E
                 (List.map_filter (extractNumericValue P) (sort_key timestamp members)))
           \<and> average_a a = average_s (calculateStatistics E
                 (List.map_filter (extractNumericValue P) (sort_key timestamp members)))
           \<and> medianValue a = median_s (calculateStatistics E
                 (List.map_filter (extractNumericValue P) (sort_key timestamp members)))
           \<and> standardDeviation_a a = standardDeviation_s (calculateStatistics E
                 (List.map_filter (extractNumericValue P) (sort_key timestamp members)))"
proof -
  let ?sorted = "sort_key timestamp members"
  have ne: "?sorted \<noteq> []" using assms(1) by (metis length_sort length_0_conv)
  then obtain first rest where sorted: "?sorted = first # rest" by (cases ?sorted) auto
  have "map (formatSensorData S) ?sorted \<noteq> []" using ne by simp
  moreover have "\<forall>r \<in> set (map (formatSensorData S) ?sorted).
      0 \<le> timestamp r \<and> timestamp r \<le> MAX_SAFE_INTEGER"
    using assms(2) by (simp add: formatSensorData_def)
  ultimately obtain merkleRoot' proofs where
    tree: "generateMerkleTree (map (formatSensorData S) ?sorted) = Inr (merkleRoot', proofs)"
    using generateMerkleTree_ok by blast
  have len: "length ?sorted = length members" by simp
  show ?thesis
    using tree len unfolding aggregateGroup_def Let_def sorted [symmetric]
    by (simp add: sorted del: length_sort)
qed

lemma aggregateGroups_ok:
  assumes "\<forall>(k, members) \<in> set groups. members \<noteq> []
      \<and> (\<forall>r \<in> set members. 0 \<le> timestamp r \<and> timestamp r \<le> MAX_SAFE_INTEGER)"
  shows "\<exists>aggregates. aggregateGroups P S D E groups = Inr aggregates
           \<and> map fst aggregates = map fst groups
           \<and> (\<forall>(k, a) \<in> set aggregates. \<exists>members. (k, members) \<in> set groups
                 \<and> aggregateGroup P S D E k members = Inr a)"
  using assms
proof (induction groups)
  case Nil
  show ?case by simp
next
  case (Cons g groups)
  obtain k members where g: "g = (k, members)" by (cases g)
  from Cons.prems g aggregateGroup_ok [of members P S D E k] obtain a where
    a: "aggregateGroup P S D E k members = Inr a" by auto
  from Cons.IH Cons.prems obtain aggregates where
    rest: "aggregateGroups P S D E groups = Inr aggregates"
      "map fst aggregates = map fst groups"
      "\<forall>(k, a) \<in> set aggregates. \<exists>members. (k, members) \<in> set groups
          \<and> aggregateGroup P S D E k members = Inr a"
    by auto
  show ?case using g a rest by (intro exI [of _ "(k, a) # aggregates"]) fastforce
qed

subsection \<open>The aggregates\<close>

lemma aggregateSensorData_entries:
  assumes "\<forall>r \<in> set readings. 0 \<le> timestamp r \<and> timestamp r \<le> MAX_SAFE_INTEGER"
  shows "\<exists>aggregates. aggregateSensorData P S D E readings = Inr aggregates
           \<and> distinct (map fst aggregates)
           \<and> set (map fst aggregates) = groupKey ` set readings
           \<and> (\<forall>(key, a) \<in> set aggregates.
                 deviceId_a a = arrayAt (split CHR ''-'' key) 0
               \<and> dataType_a a = arrayAt (split CHR ''-'' key) 1
               \<and> recordCount a = length (groupOf key readings)
               \<and> min_a a = min_s (calculateStatistics E (samplesOf P key readings))
               \<and> max_a a = max_s (calculateStatistics E (samplesOf P key readings))
               \<and> average_a a = average_s (calculateStatistics E (samplesOf P key readings))
               \<and> medianValue a = median_s (calculateStatistics E (samplesOf P key readings))
               \<and> standardDeviation_a a
                   = standardDeviation_s (calculateStatistics E (samplesOf P key readings)))"
proof -
  let ?groups = "groupReadingsLoop [] readings"
  have members: "members = groupOf k readings \<and> members \<noteq> []
      \<and> (\<forall>r \<in> set members. 0 \<le> timestamp r \<and> timestamp r \<le> MAX_SAFE_INTEGER)"
    if "(k, members) \<in> set ?groups" for k members
    using group_in_groupReadings [OF that] assms by (auto simp add: groupOf_def)
  then have "\<forall>(k, members) \<in> set ?groups. members \<noteq> []
      \<and> (\<forall>r \<in> set members. 0 \<le> timestamp r \<and> timestamp r \<le> MAX_SAFE_INTEGER)"
    by blast
  from aggregateGroups_ok [OF this, of P S D E] obtain aggregates where
    aggs: "aggregateGroups P S D E ?groups = Inr aggregates"
      "map fst aggregates = map fst ?groups"
      "\<forall>(k, a) \<in> set aggregates. \<exists>members. (k, members) \<in> set ?groups
          \<and> aggregateGroup P S D E k members = Inr a"
    by blast
  have "distinct (map fst aggregates)"
    using aggs(2) distinct_groupReadingsLoop [of "[]" readings] by simp
  moreover have "set (map fst aggregates) = groupKey ` set readings"
    using aggs(2) keys_groupReadings [of readings] by simp
  moreover have "deviceId_a a = arrayAt (split CHR ''-'' key) 0
               \<and> dataType_a a = arrayAt (split CHR ''-'' key) 1
               \<and> recordCount a = length (groupOf key readings)
               \<and> min_a a = min_s (calculateStatistics E (samplesOf P key readings))
               \<and> max_a a = max_s (calculateStatistics E (samplesOf P key readings))
               \<and> average_a a = average_s (calculateStatistics E (samplesOf P key readings))
               \<and> medianValue a = median_s (calculateStatistics E (samplesOf P key readings))
               \<and> standardDeviation_a a
                   = standardDeviation_s (calculateStatistics E (samplesOf P key readings))"
    if "(key, a) \<in> set aggregates" for key a
  proof -
    from aggs(3) that obtain ms where ms: "(key, ms) \<in> set ?groups"
      "aggregateGroup P S D E key ms = Inr a" by blast
    from members [OF ms(1)] have m: "ms = groupOf key readings" "ms \<noteq> []"
      "\<forall>r \<in> set ms. 0 \<le> timestamp r \<and> timestamp r \<le> MAX_SAFE_INTEGER" by blast+
    from aggregateGroup_ok [OF m(2,3), of P S D E key] ms(2) m(1)
    show ?thesis by (auto simp add: samplesOf_def)
  qed
  ultimately show ?thesis
    using aggs(1) by (auto simp add: aggregateSensorData_def)
qed

lemma samplesOf_empty_iff:
  "samplesOf P key readings = [] \<longleftrightarrow>
     (\<forall>r \<in> set (groupOf key readings). extractNumericValue P r = None)"
  by (auto simp add: samplesOf_def List.map_filter_def filter_empty_conv)

lemma single_entry:
  assumes "distinct (map fst entries)" and "set (map fst entries) = {k}"
  shows "\<exists>a. entries = [(k, a)]"
proof -
  from assms have "length (map fst entries) = 1"
    using distinct_card [of "map fst entries"] by simp
  then obtain k' a where "entries = [(k', a)]" by (cases entries) auto
  with assms(2) show ?thesis by simp
qed

text \<open>
  Claim C8. \<^verbatim>\<open>aggregateSensorData\<close> returns one aggregate for each key; for every group in
  which value extraction returns nothing for all records, the aggregate reports min,
  max, average, medianValue and standardDeviation all equal to 0, while recordCount is
  the number of records of the group.
\<close>
theorem zero_sample_groups:
  assumes "\<forall>r \<in> set readings. 0 \<le> timestamp r \<and> timestamp r \<le> MAX_SAFE_INTEGER"
  shows "\<exists>aggregates. aggregateSensorData P S D E readings = Inr aggregates
           \<and> set (map fst aggregates) = groupKey ` set readings
           \<and> (\<forall>(key, a) \<in> set aggregates.
                 (\<forall>r \<in> set (groupOf key readings). extractNumericValue P r = None) \<longrightarrow>
                   min_a a = Fin 0 \<and> max_a a = Fin 0 \<and> average_a a = Fin 0
                 \<and> medianValue a = Fin 0 \<and> standardDeviation_a a = Fin 0
                 \<and> recordCount a = length (groupOf key readings))"
proof -
  from aggregateSensorData_entries [OF assms, of P S D E] obtain aggregates where
    aggs: "aggregateSensorData P S D E readings = Inr aggregates"
      "set (map fst aggregates) = groupKey ` set readings"
      "\<forall>(key, a) \<in> set aggregates.
         recordCount a = length (groupOf key readings)
       \<and> min_a a = min_s (calculateStatistics E (samplesOf P key readings))
       \<and> max_a a = max_s (calculateStatistics E (samplesOf P key readings))
       \<and> average_a a = average_s (calculateStatistics E (samplesOf P key readings))
       \<and> medianValue a = median_s (calculateStatistics E (samplesOf P key readings))
       \<and> standardDeviation_a a
           = standardDeviation_s (calculateStatistics E (samplesOf P key readings))"
    by fastforce
  have "min_a a = Fin 0 \<and> max_a a = Fin 0 \<and> average_a a = Fin 0 \<and> medianValue a = Fin 0
      \<and> standardDeviation_a a = Fin 0 \<and> recordCount a = length (groupOf key readings)"
    if "(key, a) \<in> set aggregates"
      and "\<forall>r \<in> set (groupOf key readings). extractNumericValue P r = None" for key a
  proof -
    from that(2) have "samplesOf P key readings = []" by (simp add: samplesOf_empty_iff)
    with aggs(3) that(1) show ?thesis by (auto simp add: calculateStatistics_empty)
  qed
  with aggs(1,2) show ?thesis by blast
qed

lemma tenth_samples:
  "samplesOf P ''device-001-temperature''
     [reading_tenth 1700000000, reading_tenth 1700000060, reading_tenth 1700000120]
     = [tenth, tenth, tenth]"
  by (simp add: samplesOf_def groupOf_def groupKey_def reading_tenth_def List.map_filter_def
      extractNumericValue_def)

text \<open>
  Claim C9, as the specification words it, says that the average of a group is the
  arithmetic mean of its samples and that max is their maximum. The code adds and
  divides in double arithmetic: for three samples of \<^verbatim>\<open>0.1\<close> the sum is
  \<^verbatim>\<open>0.30000000000000004\<close> and the average \<^verbatim>\<open>0.10000000000000002\<close>, which is not the
  mean of the samples, \<^verbatim>\<open>0.1\<close>, and is above max, \<^verbatim>\<open>0.1\<close>. Neither field depends on the
  engine. The last line is the aggregate of three readings with that value.
\<close>
theorem average_above_maximum:
  "average_s (calculateStatistics engine_blank [tenth, tenth, tenth]) = tenth_above
   \<and> max_s (calculateStatistics engine_blank [tenth, tenth, tenth]) = tenth
   \<and> \<not> below tenth_above tenth
   \<and> map_option spec_mean (valuesOf [tenth, tenth, tenth]) = valueOf tenth
   \<and> valueOf tenth_above \<noteq> valueOf tenth
   \<and> map_sum id (map (average_a \<circ> snd))
        (aggregateSensorData parse_fails stringify_blank no_anomalies engine_blank
           [reading_tenth 1700000000, reading_tenth 1700000060, reading_tenth 1700000120])
      = Inr [tenth_above]"
proof -
  let ?readings = "[reading_tenth 1700000000, reading_tenth 1700000060, reading_tenth 1700000120]"
  let ?key = "''device-001-temperature''"
  have avg: "average_s (calculateStatistics engine_blank [tenth, tenth, tenth]) = tenth_above"
    by (rule three_tenths)
  have "\<forall>r \<in> set ?readings. 0 \<le> timestamp r \<and> timestamp r \<le> MAX_SAFE_INTEGER"
    by (simp add: reading_tenth_def MAX_SAFE_INTEGER_def)
  from aggregateSensorData_entries [OF this, of parse_fails stringify_blank no_anomalies engine_blank]
  obtain aggregates where
    aggs: "aggregateSensorData parse_fails stringify_blank no_anomalies engine_blank ?readings
             = Inr aggregates"
      "distinct (map fst aggregates)"
      "set (map fst aggregates) = groupKey ` set ?readings"
      "\<forall>(key, a) \<in> set aggregates.
         average_a a = average_s (calculateStatistics engine_blank (samplesOf parse_fails key ?readings))"
    by fastforce
  from aggs(3) have "set (map fst aggregates) = {?key}"
    by (simp add: groupKey_def reading_tenth_def)
  with aggs(2) have "\<exists>a. aggregates = [(?key, a)]" by (rule single_entry)
  then obtain a where single: "aggregates = [(?key, a)]" ..
  with aggs(4) have "average_a a = tenth_above"
    by (simp add: tenth_samples avg)
  with aggs(1) single have "map_sum id (map (average_a \<circ> snd))
        (aggregateSensorData parse_fails stringify_blank no_anomalies engine_blank ?readings)
      = Inr [tenth_above]"
    by simp
  moreover have "max_s (calculateStatistics engine_blank [tenth, tenth, tenth]) = tenth"
    by (simp add: calculateStatistics_nonempty sort_tenths)
  moreover have "map_option spec_mean (valuesOf [tenth, tenth, tenth]) = valueOf tenth"
    by (rule mean_of_tenths)
  ultimately show ?thesis
    using avg tenth_order(4) tenth_values by simp
qed

text \<open>
  Claim C9, in the arithmetic of the code. \<^verbatim>\<open>aggregateSensorData\<close> returns one aggregate
  for each key. For every group with at least one extracted sample, all samples
  finite, with the samples in ascending order: min and max are the first and the
  last, a sample below and a sample above all samples; average is the sum of the
  samples, added in ascending order from \<^verbatim>\<open>0\<close>, divided by their count \<open>N\<close>, each
  operation rounded to the nearest double; medianValue is the central value for an odd
  count and the rounded half of the rounded sum of the two central values for an even
  one; standardDeviation is \<^verbatim>\<open>Math.sqrt\<close> of the rounded mean, with divisor \<open>N\<close>, of
  \<^verbatim>\<open>Math.pow(x - average, 2)\<close>; recordCount is the number of records of the group. The
  example after it is the scenario of three temperature records with the values 20,
  22 and 19.
\<close>
theorem statistics_in_double_arithmetic:
  assumes "\<forall>r \<in> set readings. 0 \<le> timestamp r \<and> timestamp r \<le> MAX_SAFE_INTEGER"
  shows "\<exists>aggregates. aggregateSensorData P S D E readings = Inr aggregates
           \<and> distinct (map fst aggregates)
           \<and> set (map fst aggregates) = groupKey ` set readings
           \<and> (\<forall>(key, a) \<in> set aggregates.
                 samplesOf P key readings \<noteq> [] \<and> list_all isFinite (samplesOf P key readings) \<longrightarrow>
                   (\<exists>ascending.
                      mset ascending = mset (samplesOf P key readings)
                    \<and> sorted_wrt below ascending
                    \<and> min_a a = hd ascending
                    \<and> min_a a \<in> set (samplesOf P key readings)
                    \<and> (\<forall>x \<in> set (samplesOf P key readings). below (min_a a) x)
                    \<and> max_a a = last ascending
                    \<and> max_a a \<in> set (samplesOf P key readings)
                    \<and> (\<forall>x \<in> set (samplesOf P key readings). below x (max_a a))
                    \<and> average_a a = rounded_mean ascending
                    \<and> medianValue a =
                        (if even (length ascending)
                         then num_div (num_add (ascending ! (length ascending div 2 - 1))
                                         (ascending ! (length ascending div 2))) (numberOfNat 2)
                         else ascending ! (length ascending div 2))
                    \<and> standardDeviation_a a =
                        Math_sqrt E (rounded_mean
                          (map (\<lambda>x. Math_pow E (num_sub x (average_a a)) (numberOfNat 2))
                             ascending))
                    \<and> recordCount a = length (groupOf key readings)))"
proof -
  from aggregateSensorData_entries [OF assms, of P S D E] obtain aggregates where
    aggs: "aggregateSensorData P S D E readings = Inr aggregates"
      "distinct (map fst aggregates)"
      "set (map fst aggregates) = groupKey ` set readings"
      "\<forall>(key, a) \<in> set aggregates.
         recordCount a = length (groupOf key readings)
       \<and> min_a a = min_s (calculateStatistics E (samplesOf P key readings))
       \<and> max_a a = max_s (calculateStatistics E (samplesOf P key readings))
       \<and> average_a a = average_s (calculateStatistics E (samplesOf P key readings))
       \<and> medianValue a = median_s (calculateStatistics E (samplesOf P key readings))
       \<and> standardDeviation_a a
           = standardDeviation_s (calculateStatistics E (samplesOf P key readings))"
    by fastforce
  have "\<exists>ascending.
          mset ascending = mset (samplesOf P key readings)
        \<and> sorted_wrt below ascending
        \<and> min_a a = hd ascending
        \<and> min_a a \<in> set (samplesOf P key readings)
        \<and> (\<forall>x \<in> set (samplesOf P key readings). below (min_a a) x)
        \<and> max_a a = last ascending
        \<and> max_a a \<in> set (samplesOf P key readings)
        \<and> (\<forall>x \<in> set (samplesOf P key readings). below x (max_a a))
        \<and> average_a a = rounded_mean ascending
        \<and> medianValue a =
            (if even (length ascending)
             then num_div (num_add (ascending ! (length ascending div 2 - 1))
                             (ascending ! (length ascending div 2))) (numberOfNat 2)
             else ascending ! (length ascending div 2))
        \<and> standardDeviation_a a =
            Math_sqrt E (rounded_mean
              (map (\<lambda>x. Math_pow E (num_sub x (average_a a)) (numberOfNat 2)) ascending))
        \<and> recordCount a = length (groupOf key readings)"
    if "(key, a) \<in> set aggregates" and "samplesOf P key readings \<noteq> []"
      and "list_all isFinite (samplesOf P key readings)" for key a
  proof -
    from aggs(4) that(1) have fields:
      "recordCount a = length (groupOf key readings)"
      "min_a a = min_s (calculateStatistics E (samplesOf P key readings))"
      "max_a a = max_s (calculateStatistics E (samplesOf P key readings))"
      "average_a a = average_s (calculateStatistics E (samplesOf P key readings))"
      "medianValue a = median_s (calculateStatistics E (samplesOf P key readings))"
      "standardDeviation_a a = standardDeviation_s (calculateStatistics E (samplesOf P key readings))"
      by auto
    from statistics_of_numbers [OF that(2,3), of E] show ?thesis
      unfolding fields by blast
  qed
  with aggs(1,2,3) show ?thesis by blast
qed

subsection \<open>Examples\<close>

lemma example_keys:
  "groupKey reading0 = ''device-001-temperature''"
  "groupKey reading1 = ''device-001-temperature''"
  "groupKey reading2 = ''device-001-temperature''"
  "groupKey reading_offline = ''pump7-state''"
  "groupKey reading_ab_c = ''a-b-c''"
  "groupKey reading_a_bc = ''a-b-c''"
  by (simp_all add: groupKey_def reading0_def reading1_def reading2_def reading_offline_def
      reading_ab_c_def reading_a_bc_def)

lemma example_timestamps:
  "0 \<le> timestamp reading0 \<and> timestamp reading0 \<le> MAX_SAFE_INTEGER"
  "0 \<le> timestamp reading1 \<and> timestamp reading1 \<le> MAX_SAFE_INTEGER"
  "0 \<le> timestamp reading2 \<and> timestamp reading2 \<le> MAX_SAFE_INTEGER"
  "0 \<le> timestamp reading_offline \<and> timestamp reading_offline \<le> MAX_SAFE_INTEGER"
  "0 \<le> timestamp reading_ab_c \<and> timestamp reading_ab_c \<le> MAX_SAFE_INTEGER"
  "0 \<le> timestamp reading_a_bc \<and> timestamp reading_a_bc \<le> MAX_SAFE_INTEGER"
  by (simp_all add: MAX_SAFE_INTEGER_def reading0_def reading1_def reading2_def
      reading_offline_def reading_ab_c_def reading_a_bc_def)

lemma example_samples:
  "extractNumericValue P reading0 = Some (numberOfNat 20)"
  "extractNumericValue P reading1 = Some (numberOfNat 22)"
  "extractNumericValue P reading2 = Some (numberOfNat 19)"
  "extractNumericValue P reading_offline = None"
  by (simp_all add: extractNumericValue_def reading0_def reading1_def reading2_def
      reading_offline_def)

theorem zero_sample_groups_witness:
  "(0 \<le> timestamp reading0 \<and> timestamp reading0 \<le> MAX_SAFE_INTEGER)
   \<and> (0 \<le> timestamp reading_offline \<and> timestamp reading_offline \<le> MAX_SAFE_INTEGER)
   \<and> groupOf ''pump7-state'' [reading0, reading_offline] = [reading_offline]
   \<and> extractNumericValue parse_fails reading_offline = None
   \<and> (\<exists>aggregates a.
         aggregateSensorData parse_fails stringify_blank no_anomalies engine_blank
           [reading0, reading_offline] = Inr aggregates
       \<and> (''pump7-state'', a) \<in> set aggregates
       \<and> min_a a = Fin 0 \<and> max_a a = Fin 0 \<and> average_a a = Fin 0 \<and> medianValue a = Fin 0
       \<and> standardDeviation_a a = Fin 0 \<and> recordCount a = 1)"
proof -
  let ?readings = "[reading0, reading_offline]"
  have valid: "\<forall>r \<in> set ?readings. 0 \<le> timestamp r \<and> timestamp r \<le> MAX_SAFE_INTEGER"
    by (simp add: example_timestamps)
  have grp: "groupOf ''pump7-state'' ?readings = [reading_offline]"
    by (simp add: groupOf_def example_keys)
  from zero_sample_groups [OF valid, of parse_fails stringify_blank no_anomalies engine_blank]
  obtain aggregates where
    aggs: "aggregateSensorData parse_fails stringify_blank no_anomalies engine_blank ?readings
             = Inr aggregates"
      "set (map fst aggregates) = groupKey ` set ?readings"
      "\<forall>(key, a) \<in> set aggregates.
         (\<forall>r \<in> set (groupOf key ?readings). extractNumericValue parse_fails r = None) \<longrightarrow>
           min_a a = Fin 0 \<and> max_a a = Fin 0 \<and> average_a a = Fin 0 \<and> medianValue a = Fin 0
         \<and> standardDeviation_a a = Fin 0 \<and> recordCount a = length (groupOf key ?readings)"
    by blast
  from aggs(2) have "''pump7-state'' \<in> fst ` set aggregates"
    by (simp add: example_keys)
  then obtain a where a: "(''pump7-state'', a) \<in> set aggregates" by force
  with aggs(3) grp have "min_a a = Fin 0 \<and> max_a a = Fin 0 \<and> average_a a = Fin 0
      \<and> medianValue a = Fin 0 \<and> standardDeviation_a a = Fin 0 \<and> recordCount a = 1"
    by (auto simp add: example_samples)
  with aggs(1) a grp show ?thesis
    by (auto simp add: example_timestamps example_samples)
qed

lemma scenario_samples:
  "samplesOf P ''device-001-temperature'' [reading0, reading1, reading2]
     = [numberOfNat 20, numberOfNat 22, numberOfNat 19]"
proof -
  have "sort_key timestamp [reading0, reading1, reading2] = [reading0, reading1, reading2]"
    by (simp add: reading0_def reading1_def reading2_def)
  then show ?thesis
    by (simp add: samplesOf_def groupOf_def example_keys List.map_filter_def example_samples)
qed

lemma scenario_mean:
  "rounded_mean [numberOfNat 19, numberOfNat 20, numberOfNat 22]
     = Fin (5723324526450005 * 2 ^ 1026)"
proof -
  have len: "length [numberOfNat 19, numberOfNat 20, numberOfNat 22] = 3" by simp
  have "num_add (Fin 0) (numberOfNat 19) = numberOfNat 19"
    by (rule numberOfNat_add_zero) simp_all
  moreover have "num_add (numberOfNat 19) (numberOfNat 20) = numberOfNat (19 + 20)"
    by (rule numberOfNat_add) simp_all
  moreover have "num_add (numberOfNat 39) (numberOfNat 22) = numberOfNat (39 + 22)"
    by (rule numberOfNat_add) simp_all
  moreover have "(19::nat) + 20 = 39" "(39::nat) + 22 = 61" by simp_all
  ultimately have "foldl num_add (Fin 0) [numberOfNat 19, numberOfNat 20, numberOfNat 22]
      = numberOfNat 61"
    by (simp only: foldl.simps)
  then show ?thesis by (simp only: rounded_mean_def len average_61_3)
qed

theorem statistics_in_double_arithmetic_witness:
  "(0 \<le> timestamp reading0 \<and> timestamp reading0 \<le> MAX_SAFE_INTEGER)
   \<and> (0 \<le> timestamp reading1 \<and> timestamp reading1 \<le> MAX_SAFE_INTEGER)
   \<and> (0 \<le> timestamp reading2 \<and> timestamp reading2 \<le> MAX_SAFE_INTEGER)
   \<and> samplesOf parse_fails ''device-001-temperature'' [reading0, reading1, reading2]
        = [numberOfNat 20, numberOfNat 22, numberOfNat 19]
   \<and> isFinite (numberOfNat 20) \<and> isFinite (numberOfNat 22) \<and> isFinite (numberOfNat 19)
   \<and> (\<exists>a. aggregateSensorData parse_fails stringify_blank no_anomalies engine_blank
              [reading0, reading1, reading2] = Inr [(''device-001-temperature'', a)]
          \<and> recordCount a = 3
          \<and> min_a a = numberOfNat 19
          \<and> max_a a = numberOfNat 22
          \<and> average_a a = Fin (5723324526450005 * 2 ^ 1026)
          \<and> \<bar>real_of_int (5723324526450005 * 2 ^ 1026) / 2 ^ 1074 - 20.33\<bar> < 0.01
          \<and> medianValue a = numberOfNat 20)"
proof -
  let ?readings = "[reading0, reading1, reading2]"
  let ?key = "''device-001-temperature''"
  let ?samples = "[numberOfNat 20, numberOfNat 22, numberOfNat 19]"
  have valid: "\<forall>r \<in> set ?readings. 0 \<le> timestamp r \<and> timestamp r \<le> MAX_SAFE_INTEGER"
    by (simp add: example_timestamps)
  have samples: "samplesOf parse_fails ?key ?readings = ?samples"
    by (rule scenario_samples)
  have fin: "isFinite (numberOfNat 20)" "isFinite (numberOfNat 22)" "isFinite (numberOfNat 19)"
    by (simp_all add: numberOfNat_finite)
  from statistics_in_double_arithmetic
    [OF valid, of parse_fails stringify_blank no_anomalies engine_blank]
  obtain aggregates where
    aggs: "aggregateSensorData parse_fails stringify_blank no_anomalies engine_blank ?readings
             = Inr aggregates"
      "distinct (map fst aggregates)"
      "set (map fst aggregates) = groupKey ` set ?readings"
      "\<forall>(key, a) \<in> set aggregates.
         samplesOf parse_fails key ?readings \<noteq> []
           \<and> list_all isFinite (samplesOf parse_fails key ?readings) \<longrightarrow>
           (\<exists>ascending.
              mset ascending = mset (samplesOf parse_fails key ?readings)
            \<and> sorted_wrt below ascending
            \<and> min_a a = hd ascending
            \<and> min_a a \<in> set (samplesOf parse_fails key ?readings)
            \<and> (\<forall>x \<in> set (samplesOf parse_fails key ?readings). below (min_a a) x)
            \<and> max_a a = last ascending
            \<and> max_a a \<in> set (samplesOf parse_fails key ?readings)
            \<and> (\<forall>x \<in> set (samplesOf parse_fails key ?readings). below x (max_a a))
            \<and> average_a a = rounded_mean ascending
            \<and> medianValue a =
                (if even (length ascending)
                 then num_div (num_add (ascending ! (length ascending div 2 - 1))
                                 (ascending ! (length ascending div 2))) (numberOfNat 2)
                 else ascending ! (length ascending div 2))
            \<and> standardDeviation_a a =
                Math_sqrt engine_blank (rounded_mean
                  (map (\<lambda>x. Math_pow engine_blank (num_sub x (average_a a)) (numberOfNat 2))
                     ascending))
            \<and> recordCount a = length (groupOf key ?readings))"
    by blast
  from aggs(3) have "set (map fst aggregates) = {?key}"
    by (simp add: example_keys)
  with aggs(2) have "\<exists>a. aggregates = [(?key, a)]" by (rule single_entry)
  then obtain a where single: "aggregates = [(?key, a)]" ..
  have "(?key, a) \<in> set aggregates" using single by simp
  note group = bspec [OF aggs(4) this, unfolded prod.case samples]
  have "?samples \<noteq> [] \<and> list_all isFinite ?samples" using fin by simp
  with group have "\<exists>ascending.
      mset ascending = mset ?samples
    \<and> sorted_wrt below ascending
    \<and> min_a a = hd ascending
    \<and> min_a a \<in> set ?samples
    \<and> (\<forall>x \<in> set ?samples. below (min_a a) x)
    \<and> max_a a = last ascending
    \<and> max_a a \<in> set ?samples
    \<and> (\<forall>x \<in> set ?samples. below x (max_a a))
    \<and> average_a a = rounded_mean ascending
    \<and> medianValue a =
        (if even (length ascending)
         then num_div (num_add (ascending ! (length ascending div 2 - 1))
                         (ascending ! (length ascending div 2))) (numberOfNat 2)
         else ascending ! (length ascending div 2))
    \<and> standardDeviation_a a =
        Math_sqrt engine_blank (rounded_mean
          (map (\<lambda>x. Math_pow engine_blank (num_sub x (average_a a)) (numberOfNat 2))
             ascending))
    \<and> recordCount a = length (groupOf ?key ?readings)"
    by (rule mp)
  then obtain ascending where
    asc: "mset ascending = mset ?samples"
      "min_a a = hd ascending"
      "min_a a \<in> set ?samples"
      "\<forall>x \<in> set ?samples. below (min_a a) x"
      "max_a a = last ascending"
      "max_a a \<in> set ?samples"
      "\<forall>x \<in> set ?samples. below x (max_a a)"
      "average_a a = rounded_mean ascending"
      "medianValue a =
         (if even (length ascending)
          then num_div (num_add (ascending ! (length ascending div 2 - 1))
                          (ascending ! (length ascending div 2))) (numberOfNat 2)
          else ascending ! (length ascending div 2))"
      "recordCount a = length (groupOf ?key ?readings)"
    by (elim exE conjE) (rule that; assumption)
  have order: "below (numberOfNat m) (numberOfNat n) \<longleftrightarrow> m \<le> n"
    if "m \<in> {19, 20, 22}" and "n \<in> {19, 20, 22}" for m n
    using that by (intro numberOfNat_below) auto
  have least: "min_a a = numberOfNat 19"
    using asc(3,4) order by auto
  have greatest: "max_a a = numberOfNat 22"
    using asc(6,7) order by auto
  have "\<not> below (numberOfNat 20) (numberOfNat 19)" "\<not> below (numberOfNat 22) (numberOfNat 20)"
    using order [of 20 19] order [of 22 20] by simp_all
  moreover have "below (numberOfNat 19) (numberOfNat 19)" "below (numberOfNat 22) (numberOfNat 22)"
    by (simp_all add: below_refl numberOfNat_not_NaN)
  ultimately have differ: "numberOfNat 20 \<noteq> numberOfNat 19" "numberOfNat 20 \<noteq> numberOfNat 22"
    by metis+
  from asc(1) have "length ascending = length ?samples" by (rule mset_eq_length)
  then obtain x y z where xyz: "ascending = [x, y, z]"
    by (cases ascending; cases "tl ascending"; cases "tl (tl ascending)") auto
  from asc(2,5) least greatest xyz have ends: "x = numberOfNat 19" "z = numberOfNat 22"
    by simp_all
  from asc(1) have "set ascending = set ?samples" by (rule mset_eq_setD)
  with xyz ends differ have middle: "y = numberOfNat 20" by auto
  have ascending: "ascending = [numberOfNat 19, numberOfNat 20, numberOfNat 22]"
    using xyz ends middle by simp
  have "average_a a = Fin (5723324526450005 * 2 ^ 1026)"
    using asc(8) by (simp only: ascending scenario_mean)
  moreover have "medianValue a = numberOfNat 20"
    using asc(9) by (simp add: ascending)
  moreover have "recordCount a = 3"
    using asc(10) by (simp add: groupOf_def example_keys)
  ultimately show ?thesis
    using aggs(1) single least greatest average_near samples
    by (simp only: example_timestamps fin) blast
qed

text \<open>
  Claim C7 says that records are grouped exactly by the pair of device and data type
  and that each aggregate carries both. The key joins the two with a hyphen and the
  aggregate takes the first two pieces of the key split at hyphens: for the device
  \<^verbatim>\<open>device-001\<close> with type \<^verbatim>\<open>temperature\<close> the aggregate carries device \<^verbatim>\<open>device\<close> and type
  \<^verbatim>\<open>001\<close>, and two readings with different devices and types share one group.
\<close>
theorem aggregate_key_is_ambiguous:
  "(\<exists>a. aggregateSensorData P S D E [reading0] = Inr [(''device-001-temperature'', a)]
        \<and> deviceId reading0 = ''device-001'' \<and> dataType reading0 = ''temperature''
        \<and> deviceId_a a = Some ''device'' \<and> dataType_a a = Some ''001'')
   \<and> (\<exists>a. aggregateSensorData P S D E [reading_ab_c, reading_a_bc] = Inr [(''a-b-c'', a)]
        \<and> deviceId reading_ab_c = ''a-b'' \<and> dataType reading_ab_c = ''c''
        \<and> deviceId reading_a_bc = ''a'' \<and> dataType reading_a_bc = ''b-c''
        \<and> recordCount a = 2 \<and> deviceId_a a = Some ''a'' \<and> dataType_a a = Some ''b'')"
proof -
  have one: "\<exists>a. aggregateSensorData P S D E [reading0] = Inr [(''device-001-temperature'', a)]
        \<and> deviceId_a a = Some ''device'' \<and> dataType_a a = Some ''001''"
  proof -
    have "[reading0] \<noteq> []" "\<forall>r \<in> set [reading0]. 0 \<le> timestamp r \<and> timestamp r \<le> MAX_SAFE_INTEGER"
      by (simp_all add: example_timestamps)
    from aggregateGroup_ok [OF this, of P S D E "''device-001-temperature''"]
    show ?thesis
      by (auto simp add: aggregateSensorData_def example_keys arrayAt_def)
  qed
  have two: "\<exists>a. aggregateSensorData P S D E [reading_ab_c, reading_a_bc] = Inr [(''a-b-c'', a)]
        \<and> recordCount a = 2 \<and> deviceId_a a = Some ''a'' \<and> dataType_a a = Some ''b''"
  proof -
    have "[reading_ab_c, reading_a_bc] \<noteq> []"
      "\<forall>r \<in> set [reading_ab_c, reading_a_bc]. 0 \<le> timestamp r \<and> timestamp r \<le> MAX_SAFE_INTEGER"
      by (simp_all add: example_timestamps)
    from aggregateGroup_ok [OF this, of P S D E "''a-b-c''"]
    show ?thesis
      by (auto simp add: aggregateSensorData_def example_keys arrayAt_def)
  qed
  from one two show ?thesis
    by (simp add: reading0_def reading_ab_c_def reading_a_bc_def)
qed

end
